theory Spec2Isabelle
  imports Main
begin

unbundle bit_operations_syntax

section \<open>LAfix: data model\<close>

text \<open>
  A shallow embedding of \<^verbatim>\<open>src/scrub/LAfix.c\<close>. C \<^verbatim>\<open>int\<close> values are modelled by
  \<^typ>\<open>int\<close>: every quantity is a read position, a segment index or a small counter, far
  from the 32-bit range. Everything the program aborts on (\<^verbatim>\<open>exit(1)\<close>, a failed
  \<^verbatim>\<open>assert\<close>, a read outside the per-read slice of a track or trace, a division by a
  zero segment width) is a value of the type \<open>error\<close>. The parallel quality-value streams
  and the statistics counters are written next to the bases by the same loops and are
  left out of the model.
\<close>

datatype error = Exit1 | AssertFail | OutOfBounds | DivByZero

text \<open>The \<^verbatim>\<open>Overlap\<close> record with its \<^verbatim>\<open>path\<close> inlined; \<^verbatim>\<open>path.tlen\<close> is the length of \<open>trace\<close>.\<close>

record Overlap =
  aread :: int
  bread :: int
  flags :: int
  abpos :: int
  aepos :: int
  bbpos :: int
  bepos :: int
  trace :: "int list"

text \<open>The \<^verbatim>\<open>Gap\<close> struct (lines 100-114).\<close>

record Gap =
  ab :: int
  ae :: int
  bb :: int
  be :: int
  diff :: int
  b :: int
  support :: int
  span :: int
  comp :: int

text \<open>
  The part of \<^verbatim>\<open>FixContext\<close> the per-read function reads. The database and the tracks are
  declared in headers outside the sources at hand; they are modelled as the per-read views
  the program takes of them: \<open>db\<close> gives the bases of a read (what \<^verbatim>\<open>Load_Read\<close> puts into
  the buffer), a Q track gives the per-segment values of a read, an interval track the
  list of its \<open>(begin, end)\<close> pairs, the trim track one pair per read.
\<close>

record FixContext =
  db :: "int \<Rightarrow> string"
  twidth :: int
  minlen :: int
  lowq :: int
  maxgap :: int
  qtrack :: "int \<Rightarrow> int list"
  trimtrack :: "(int \<Rightarrow> int \<times> int) option"
  dusttrack :: "int \<Rightarrow> (int \<times> int) list"
  convertTracks :: "(string \<times> (int \<Rightarrow> (int \<times> int) list)) list"

definition DB_READ_LEN :: "FixContext \<Rightarrow> int \<Rightarrow> int" where
  "DB_READ_LEN fctx r = int (length (db fctx r))"

definition MIN_INT_LEN :: int where
  "MIN_INT_LEN = 5"

definition MIN_SPAN :: int where
  "MIN_SPAN = 400"

text \<open>
  Modelled from the spec: the constant \<^verbatim>\<open>OVL_COMP\<close> of \<^verbatim>\<open>lib/oflags.h\<close> (absent): the bit of
  \<open>flags\<close> that is set iff B is reverse-complement aligned.
\<close>

definition OVL_COMP :: int where
  "OVL_COMP = 1"

text \<open>
  Modelled from the spec: \<^verbatim>\<open>intersect\<close> of \<^verbatim>\<open>lib/utils\<close> (absent): whether (by how much)
  the ranges \<open>[ab, ae)\<close> and \<open>[bb, be)\<close> intersect; the callers test the result against 0.
\<close>

definition intersect :: "int \<Rightarrow> int \<Rightarrow> int \<Rightarrow> int \<Rightarrow> int" where
  "intersect ab' ae' bb' be' =
     (let b' = max ab' bb'; e' = min ae' be' in if b' < e' then e' - b' else 0)"

text \<open>C integer division truncates towards zero.\<close>

definition cdiv :: "int \<Rightarrow> int \<Rightarrow> int" where
  "cdiv x y = sgn x * sgn y * (\<bar>x\<bar> div \<bar>y\<bar>)"

text \<open>A checked read of element \<open>k\<close> of a per-read slice.\<close>

definition rd :: "'a list \<Rightarrow> int \<Rightarrow> error + 'a" where
  "rd xs k = (if 0 \<le> k \<and> k < int (length xs) then Inr (xs ! nat k) else Inl OutOfBounds)"

section \<open>spanners (lines 216-231)\<close>

definition spanners :: "Overlap list \<Rightarrow> int \<Rightarrow> int \<Rightarrow> int" where
  "spanners ovls b' e' =
     int (length (filter (\<lambda>ovl. abpos ovl < b' - MIN_SPAN \<and> aepos ovl > e' + MIN_SPAN) ovls))"

section \<open>filter_flips (lines 233-386)\<close>

text \<open>
  The first loop (lines 244-274): the index range \<open>[b, e)\<close> of the self overlaps and the
  counts of complemented and plain ones. \<open>e\<close> is only assigned when an overlap with a
  larger B read follows the self overlaps.
\<close>

fun flips_scan :: "int \<Rightarrow> Overlap list \<Rightarrow> int \<Rightarrow> int \<times> int \<times> int \<times> int \<Rightarrow> int \<times> int \<times> int \<times> int" where
  "flips_scan ar [] i (b', e', self_c, self_n) = (b', e', self_c, self_n)"
| "flips_scan ar (ovl # rest) i (b', e', self_c, self_n) =
     (if ar < bread ovl then (b', (if b' \<noteq> -1 then i else e'), self_c, self_n)
      else if ar = bread ovl then
        flips_scan ar rest (i + 1)
          ((if b' = -1 then i else b'), e',
           (if flags ovl AND OVL_COMP \<noteq> 0 then self_c + 1 else self_c),
           (if flags ovl AND OVL_COMP \<noteq> 0 then self_n else self_n + 1))
      else flips_scan ar rest (i + 1) (b', e', self_c, self_n))"

text \<open>The trim update of the segment branch (lines 319-329).\<close>

definition trim_seg :: "int \<Rightarrow> int \<Rightarrow> int \<times> int \<Rightarrow> int \<times> int" where
  "trim_seg sab sae t =
     (case t of (trim_b, trim_e) \<Rightarrow>
        if trim_b < sab \<and> sae < trim_e
        then (if sab - trim_b < trim_e - sae then (sae, trim_e) else (trim_b, sab))
        else (trim_b, trim_e))"

text \<open>The trim update of the gap branch (lines 366-378).\<close>

definition trim_mid :: "int \<Rightarrow> int \<times> int \<Rightarrow> int \<times> int" where
  "trim_mid mid t =
     (case t of (trim_b, trim_e) \<Rightarrow>
        if trim_b < mid \<and> mid < trim_e
        then (if mid - trim_b < trim_e - mid then (mid, trim_e) else (trim_b, mid))
        else (trim_b, trim_e))"

text \<open>
  The walk over the trace of one overlap (lines 309-337), from \<open>j\<close> in steps of 2 while
  \<open>j < tlen - 2\<close>. The read \<open>trace[j + 1]\<close> is inside the trace for \<open>j \<ge> 0\<close>, by the loop
  condition. The state is \<open>(trimmed, (trim_b, trim_e))\<close>.
\<close>

function flip_segs :: "int \<Rightarrow> int \<Rightarrow> int list \<Rightarrow> int \<Rightarrow> int \<times> int \<times> int \<times> int
    \<Rightarrow> int \<times> int \<times> int \<Rightarrow> int \<times> int \<times> int" where
  "flip_segs tw alen tr j (sab, sae, sbb, sbe) (trimmed, t) =
     (if j < int (length tr) - 2
      then flip_segs tw alen tr (j + 2)
             (sae, sae + tw, sbe, sbe + tr ! nat (j + 1))
             (if intersect sab sae (alen - sbe) (alen - sbb) \<noteq> 0
              then (1, trim_seg sab sae t) else (trimmed, t))
      else (trimmed, t))"
  by pat_completeness auto
termination
  by (relation "measure (\<lambda>(tw, alen, tr, j, s, st). nat (int (length tr) - 2 - j))") auto

declare flip_segs.simps [simp del]

text \<open>
  The loop over the self overlaps \<open>ovls[b..e)\<close> (lines 285-343). \<open>trace[1]\<close> is read before
  the walk; a trace shorter than two entries is a read outside the trace.
\<close>

fun flips_cross :: "int \<Rightarrow> int \<Rightarrow> Overlap list \<Rightarrow> int \<times> int \<times> int \<Rightarrow> error + int \<times> int \<times> int" where
  "flips_cross tw alen [] st = Inr st"
| "flips_cross tw alen (ovl # rest) st =
     (if flags ovl AND OVL_COMP \<noteq> 0
         \<and> intersect (abpos ovl) (aepos ovl) (alen - bepos ovl) (alen - bbpos ovl) \<noteq> 0
      then (case rd (trace ovl) 1 of
              Inl err \<Rightarrow> Inl err
            | Inr t1 \<Rightarrow>
                flips_cross tw alen rest
                  (flip_segs tw alen (trace ovl) 2
                     (abpos ovl, (cdiv (abpos ovl) tw + 1) * tw, bbpos ovl, bbpos ovl + t1) st))
      else flips_cross tw alen rest st)"

text \<open>
  The loop over the consecutive pairs of \<open>ovls[b..e)\<close> (lines 345-383); \<open>ovls\<close> is the whole
  group, for \<open>spanners\<close>.
\<close>

fun flips_gaps :: "int \<Rightarrow> Overlap list \<Rightarrow> Overlap list \<Rightarrow> int \<times> int \<times> int \<Rightarrow> int \<times> int \<times> int" where
  "flips_gaps alen ovls (ovl # ovl2 # rest) (trimmed, t) =
     flips_gaps alen ovls (ovl2 # rest)
       (if flags ovl AND OVL_COMP \<noteq> 0 \<and> flags ovl2 AND OVL_COMP \<noteq> 0
           \<and> intersect (aepos ovl) (abpos ovl2) (alen - bbpos ovl2) (alen - bepos ovl) \<noteq> 0
           \<and> spanners ovls (aepos ovl) (abpos ovl2) \<le> 1
        then (1, trim_mid (cdiv (aepos ovl + abpos ovl2) 2) t)
        else (trimmed, t))"
| "flips_gaps alen ovls rest st = st"

text \<open>The elements \<open>ovls[b..e)\<close>; none when \<open>e \<le> b\<close>.\<close>

definition ovl_range :: "Overlap list \<Rightarrow> int \<Rightarrow> int \<Rightarrow> Overlap list" where
  "ovl_range ovls b' e' = take (nat (e' - b')) (drop (nat b') ovls)"

text \<open>
  \<^verbatim>\<open>filter_flips\<close>: the result is \<open>(trimmed, (trim_b, trim_e))\<close>, the return value and the
  two cells behind the pointers. The function reads \<^verbatim>\<open>ovls->aread\<close>, so an empty group is a
  read outside the array.
\<close>

definition filter_flips :: "FixContext \<Rightarrow> Overlap list \<Rightarrow> int \<times> int \<Rightarrow> error + int \<times> int \<times> int" where
  "filter_flips fctx ovls t =
     (case ovls of
        [] \<Rightarrow> Inl OutOfBounds
      | ovl0 # _ \<Rightarrow>
          (case flips_scan (aread ovl0) ovls 0 (-1, -1, 0, 0) of
             (b', e', self_c, self_n) \<Rightarrow>
               if self_c = 0 then Inr (0, t)
               else
                 (case flips_cross (twidth fctx) (DB_READ_LEN fctx (aread ovl0))
                         (ovl_range ovls b' e') (0, t) of
                    Inl err \<Rightarrow> Inl err
                  | Inr st \<Rightarrow>
                      Inr (flips_gaps (DB_READ_LEN fctx (aread ovl0)) ovls
                             (ovl_range ovls b' e') st))))"

section \<open>fix_process: the trim interval (lines 410-436)\<close>

text \<open>
  Modelled from the spec: \<^verbatim>\<open>get_trim\<close> of \<^verbatim>\<open>lib/tracks\<close> (absent) yields the single
  \<open>[trim_ab, trim_ae)\<close> interval the trim track holds for the read.
\<close>

definition initial_trim :: "FixContext \<Rightarrow> int \<Rightarrow> int \<times> int" where
  "initial_trim fctx ar =
     (case trimtrack fctx of
        Some tt \<Rightarrow> tt ar
      | None \<Rightarrow> (0, DB_READ_LEN fctx ar))"

text \<open>
  Lines 428-436: the flip detector runs on a copy of the trim, and the final trim is the
  intersection of the two.
\<close>

definition flip_trim :: "FixContext \<Rightarrow> Overlap list \<Rightarrow> int \<times> int \<Rightarrow> error + int \<times> int" where
  "flip_trim fctx ovl t =
     (case t of (trim_ab, trim_ae) \<Rightarrow>
        (case filter_flips fctx ovl (trim_ab, trim_ae) of
           Inl err \<Rightarrow> Inl err
         | Inr (trimmed, flips_trim_b, flips_trim_e) \<Rightarrow>
             Inr (max flips_trim_b trim_ab, min flips_trim_e trim_ae)))"

text \<open>
  Lines 438-473: the sanity checks of the Q track, the dust track and the trim interval of
  the A read; each failure is \<^verbatim>\<open>exit(1)\<close>.
\<close>

definition sanity_tracks :: "FixContext \<Rightarrow> int \<Rightarrow> int \<times> int \<Rightarrow> error + unit" where
  "sanity_tracks fctx ar t =
     (case t of (trim_ab, trim_ae) \<Rightarrow>
        let alen = DB_READ_LEN fctx ar;
            nsegments = cdiv (alen + twidth fctx - 1) (twidth fctx)
        in if int (length (qtrack fctx ar)) \<noteq> nsegments then Inl Exit1
           else if list_ex (\<lambda>(b', e'). b' < 0 \<or> b' > alen \<or> b' > e' \<or> e' > alen) (dusttrack fctx ar)
           then Inl Exit1
           else if trim_ab < 0 \<or> trim_ab > alen \<or> trim_ab > trim_ae \<or> trim_ae > alen
           then Inl Exit1
           else Inr ())"

text \<open>
  Lines 410-473 together: \<open>Inr None\<close> is the silent \<^verbatim>\<open>return 1\<close> of a read whose trim
  interval is empty, \<open>Inr (Some t)\<close> the trim interval the candidate search starts with. The
  first division by the segment width is reached on every path past the trim test.
\<close>

definition fix_trim :: "FixContext \<Rightarrow> Overlap list \<Rightarrow> error + (int \<times> int) option" where
  "fix_trim fctx ovl =
     (case ovl of
        [] \<Rightarrow> Inl OutOfBounds
      | ovl0 # _ \<Rightarrow>
          (case initial_trim fctx (aread ovl0) of (trim_ab, trim_ae) \<Rightarrow>
             if trim_ab \<ge> trim_ae then Inr None
             else if twidth fctx = 0 then Inl DivByZero
             else (case flip_trim fctx ovl (trim_ab, trim_ae) of
                     Inl err \<Rightarrow> Inl err
                   | Inr t \<Rightarrow>
                       (case sanity_tracks fctx (aread ovl0) t of
                          Inl err \<Rightarrow> Inl err
                        | Inr u \<Rightarrow> Inr (Some t)))))"

section \<open>fix_process: candidates from gaps between overlaps (lines 475-601)\<close>

text \<open>The dust test of lines 535-551: some dust interval of the B read lies inside \<open>[bb, be]\<close>.\<close>

definition dust_inside :: "(int \<times> int) list \<Rightarrow> int \<Rightarrow> int \<Rightarrow> bool" where
  "dust_inside dust bb' be' = list_ex (\<lambda>(db', de'). bb' \<le> db' \<and> be' \<ge> de') dust"

text \<open>
  The Q values of the B segments \<open>js\<close> (lines 561-572): every segment is read; the result is
  \<open>(weak_b, q)\<close>.
\<close>

fun gap_q :: "int list \<Rightarrow> int list \<Rightarrow> bool \<times> int \<Rightarrow> error + bool \<times> int" where
  "gap_q qb [] st = Inr st"
| "gap_q qb (j # js) (weak_b, q) =
     (case rd qb j of
        Inl err \<Rightarrow> Inl err
      | Inr v \<Rightarrow> gap_q qb js (weak_b \<or> v = 0, q + v))"

text \<open>
  The body of the loop for a pair of consecutive overlaps that passed the test of lines
  480-482 (lines 490-599); \<open>Inr None\<close> is a \<^verbatim>\<open>continue\<close>. The quotient
  \<^verbatim>\<open>100.0 * q / (be - bb)\<close> is converted to \<^verbatim>\<open>int\<close>, which truncates.
\<close>

definition gap_candidate :: "FixContext \<Rightarrow> Overlap \<Rightarrow> Overlap \<Rightarrow> error + Gap option" where
  "gap_candidate fctx o1 o2 =
     (let ab' = cdiv (aepos o1 - 1) (twidth fctx);
          ae' = cdiv (abpos o2) (twidth fctx) + 1
      in case rd (trace o1) (int (length (trace o1)) - 1) of
           Inl err \<Rightarrow> Inl err
         | Inr wl \<Rightarrow>
             (case rd (trace o2) 1 of
                Inl err \<Rightarrow> Inl err
              | Inr wr \<Rightarrow>
                  if bepos o1 - wl \<ge> bbpos o2 + wr then Inr None
                  else
                    let blen = DB_READ_LEN fctx (bread o2);
                        bb' = (if flags o2 AND OVL_COMP \<noteq> 0 then blen - (bbpos o2 + wr)
                               else bepos o1 - wl);
                        be' = (if flags o2 AND OVL_COMP \<noteq> 0 then blen - (bepos o1 - wl)
                               else bbpos o2 + wr)
                    in if dust_inside (dusttrack fctx (bread o2)) bb' be' then Inr None
                       else
                         (case gap_q (qtrack fctx (bread o2))
                                 [cdiv bb' (twidth fctx) .. cdiv be' (twidth fctx) + 1 - 1]
                                 (False, 0) of
                            Inl err \<Rightarrow> Inl err
                          | Inr (weak_b, q) \<Rightarrow>
                              if weak_b then Inr None
                              else Inr (Some \<lparr> ab = ab' * twidth fctx, ae = ae' * twidth fctx,
                                     bb = bb', be = be', diff = cdiv (100 * q) (be' - bb'),
                                     b = bread o2, support = 1, span = 0,
                                     comp = flags o2 AND OVL_COMP \<rparr>))))"

text \<open>The loop over the consecutive pairs of the group (lines 478-601).\<close>

fun find_gaps :: "FixContext \<Rightarrow> Overlap list \<Rightarrow> error + Gap list" where
  "find_gaps fctx (o1 # o2 # rest) =
     (case (if bread o1 = bread o2 \<and> aepos o1 < abpos o2
               \<and> flags o1 AND OVL_COMP = flags o2 AND OVL_COMP
            then gap_candidate fctx o1 o2 else Inr None) of
        Inl err \<Rightarrow> Inl err
      | Inr c \<Rightarrow>
          (case find_gaps fctx (o2 # rest) of
             Inl err \<Rightarrow> Inl err
           | Inr gs \<Rightarrow> Inr (case c of None \<Rightarrow> gs | Some g \<Rightarrow> g # gs)))"
| "find_gaps fctx rest = Inr []"

section \<open>fix_process: sorting and merging the candidates (lines 196-214, 603-734)\<close>

definition cmp_gaps :: "Gap \<Rightarrow> Gap \<Rightarrow> int" where
  "cmp_gaps x y =
     (let cmp = ab x - ab y;
          cmp = (if cmp = 0 then ae x - ae y else cmp);
          cmp = (if cmp = 0 then diff x - diff y else cmp)
      in cmp)"

text \<open>
  \<^verbatim>\<open>qsort\<close> with \<^verbatim>\<open>cmp_gaps\<close>. The C library leaves the order of candidates that compare
  equal open; the model keeps them in their order of arrival.
\<close>

fun insert_gap :: "Gap \<Rightarrow> Gap list \<Rightarrow> Gap list" where
  "insert_gap g [] = [g]"
| "insert_gap g (h # hs) = (if cmp_gaps g h \<le> 0 then g # h # hs else h # insert_gap g hs)"

definition qsort_gaps :: "Gap list \<Rightarrow> Gap list" where
  "qsort_gaps gs = foldr insert_gap gs []"

text \<open>
  Merging the candidates at the same position in A (lines 609-635): the inner loop from
  \<open>j\<close>, then the body for index \<open>i\<close>, then the loop over all indices. The test of line 616
  drops a candidate whose A length or B length reaches \<open>maxgap\<close>.
\<close>

function merge_same_inner :: "Gap list \<Rightarrow> nat \<Rightarrow> nat \<Rightarrow> Gap list" where
  "merge_same_inner data i j =
     (if j < length data \<and> ab (data ! i) = ab (data ! j) \<and> ae (data ! i) = ae (data ! j)
      then
        (if support (data ! j) = -1 then merge_same_inner data i (j + 1)
         else if \<bar>(be (data ! j) - bb (data ! j)) - (be (data ! i) - bb (data ! i))\<bar> < 40
         then merge_same_inner
                (data[i := (data ! i)\<lparr> support := support (data ! i) + 1 \<rparr>,
                      j := (data ! j)\<lparr> support := -1 \<rparr>]) i (j + 1)
         else merge_same_inner data i (j + 1))
      else data)"
  by pat_completeness auto
termination
  by (relation "measure (\<lambda>(data, i, j). length data - j)") auto

declare merge_same_inner.simps [simp del]

definition merge_same_step :: "int \<Rightarrow> Gap list \<Rightarrow> nat \<Rightarrow> Gap list" where
  "merge_same_step mg data i =
     (if support (data ! i) = -1 then data
      else if mg \<noteq> -1 \<and> (ae (data ! i) - ab (data ! i) \<ge> mg
                         \<or> \<bar>be (data ! i) - bb (data ! i)\<bar> \<ge> mg)
      then data[i := (data ! i)\<lparr> support := -1 \<rparr>]
      else merge_same_inner data i (i + 1))"

definition merge_same :: "int \<Rightarrow> Gap list \<Rightarrow> Gap list" where
  "merge_same mg data = foldl (merge_same_step mg) data [0..<length data]"

text \<open>Merging overlapping candidates (lines 668-694).\<close>

function merge_overlapping_inner :: "Gap list \<Rightarrow> nat \<Rightarrow> nat \<Rightarrow> Gap list" where
  "merge_overlapping_inner data i j =
     (if j < length data \<and> ae (data ! i) > ab (data ! j) \<and> ab (data ! i) < ae (data ! j)
      then
        (if support (data ! j) = -1 then merge_overlapping_inner data i (j + 1)
         else if support (data ! i) > support (data ! j)
         then merge_overlapping_inner
                (data[i := (data ! i)\<lparr> support := support (data ! i) + support (data ! j) \<rparr>,
                      j := (data ! j)\<lparr> support := -1 \<rparr>]) i (j + 1)
         else data[j := (data ! j)\<lparr> support := support (data ! j) + support (data ! i) \<rparr>,
                   i := (data ! i)\<lparr> support := -1 \<rparr>])
      else data)"
  by pat_completeness auto
termination
  by (relation "measure (\<lambda>(data, i, j). length data - j)") auto

declare merge_overlapping_inner.simps [simp del]

definition merge_overlapping_step :: "Gap list \<Rightarrow> nat \<Rightarrow> Gap list" where
  "merge_overlapping_step data i =
     (if support (data ! i) = -1 then data else merge_overlapping_inner data i (i + 1))"

definition merge_overlapping :: "Gap list \<Rightarrow> Gap list" where
  "merge_overlapping data = foldl merge_overlapping_step data [0..<length data]"

text \<open>Dropping the candidates that more than ten overlaps span (lines 698-704).\<close>

definition drop_spanned :: "Overlap list \<Rightarrow> Gap list \<Rightarrow> Gap list" where
  "drop_spanned ovl data =
     map (\<lambda>g. if spanners ovl (ab g) (ae g) > 10 then g\<lparr> support := -1 \<rparr> else g) data"

text \<open>
  Lines 706-734: a candidate is kept when its support is at least 5 and one of its A
  segments has no Q value or one of at least \<open>lowq\<close>.
\<close>

fun bad_q :: "int list \<Rightarrow> int \<Rightarrow> int list \<Rightarrow> error + bool" where
  "bad_q qa lq [] = Inr False"
| "bad_q qa lq (k # ks) =
     (case rd qa k of
        Inl err \<Rightarrow> Inl err
      | Inr v \<Rightarrow> if v = 0 \<or> v \<ge> lq then Inr True else bad_q qa lq ks)"

fun keep_supported :: "FixContext \<Rightarrow> int list \<Rightarrow> Gap list \<Rightarrow> error + Gap list" where
  "keep_supported fctx qa [] = Inr []"
| "keep_supported fctx qa (g # gs) =
     (if support g < 5 then keep_supported fctx qa gs
      else
        (case bad_q qa (lowq fctx)
                [cdiv (ab g) (twidth fctx) .. cdiv (ae g) (twidth fctx) - 1] of
           Inl err \<Rightarrow> Inl err
         | Inr bad \<Rightarrow>
             (case keep_supported fctx qa gs of
                Inl err \<Rightarrow> Inl err
              | Inr out \<Rightarrow> Inr (if bad then g # out else out))))"

text \<open>Lines 603-734: the candidates from gaps that reach the scan for weak segments.\<close>

definition merge_gaps :: "FixContext \<Rightarrow> Overlap list \<Rightarrow> int list \<Rightarrow> Gap list \<Rightarrow> error + Gap list" where
  "merge_gaps fctx ovl qa data =
     keep_supported fctx qa
       (drop_spanned ovl (merge_overlapping (merge_same (maxgap fctx) (qsort_gaps data))))"

section \<open>fix_process: candidates from weak segments (lines 736-931)\<close>

text \<open>
  Lines 741-749: the first and the last segment of the scan move inwards over segments
  without a Q value; the loops stop with an error when they leave the Q values of the read.
\<close>

function skip_zero_up :: "int list \<Rightarrow> int \<Rightarrow> error + int" where
  "skip_zero_up qa seg_first =
     (case rd qa seg_first of
        Inl err \<Rightarrow> Inl err
      | Inr v \<Rightarrow> if v = 0 then skip_zero_up qa (seg_first + 1) else Inr seg_first)"
  by pat_completeness auto
termination
  by (relation "measure (\<lambda>(qa, seg_first). nat (int (length qa) - seg_first))")
     (auto simp: rd_def split: if_splits)

declare skip_zero_up.simps [simp del]

function skip_zero_down :: "int list \<Rightarrow> int \<Rightarrow> error + int" where
  "skip_zero_down qa seg_last =
     (case rd qa (seg_last - 1) of
        Inl err \<Rightarrow> Inl err
      | Inr v \<Rightarrow> if v = 0 then skip_zero_down qa (seg_last - 1) else Inr seg_last)"
  by pat_completeness auto
termination
  by (relation "measure (\<lambda>(qa, seg_last). nat seg_last)")
     (auto simp: rd_def split: if_splits)

declare skip_zero_down.simps [simp del]

text \<open>
  Lines 830-843: the walk along the trace of an overlap up to the segment of A that
  starts at \<open>ab\<close>; the state is \<open>(bb, be)\<close>.
\<close>

function locate_b :: "int \<Rightarrow> int list \<Rightarrow> int \<Rightarrow> int \<Rightarrow> int \<Rightarrow> int \<times> int \<Rightarrow> error + int \<times> int" where
  "locate_b tw tr ab' apos k (bb', be') =
     (if apos \<le> ab'
      then (case rd tr (k + 1) of
              Inl err \<Rightarrow> Inl err
            | Inr w \<Rightarrow> locate_b tw tr ab' ((cdiv apos tw + 1) * tw) (k + 2) (be', be' + w))
      else Inr (bb', be'))"
  by pat_completeness auto
termination
  by (relation "measure (\<lambda>(tw, tr, ab', apos, k, st). nat (int (length tr) - k))")
     (auto simp: rd_def split: if_splits)

declare locate_b.simps [simp del]

text \<open>Lines 826-854: the B interval of the donor, on the forward strand.\<close>

definition weak_donor :: "FixContext \<Rightarrow> Overlap \<Rightarrow> int \<Rightarrow> error + int \<times> int" where
  "weak_donor fctx ov ab' =
     (case locate_b (twidth fctx) (trace ov) ab' (abpos ov) 0 (-1, bbpos ov) of
        Inl err \<Rightarrow> Inl err
      | Inr (bb', be') \<Rightarrow>
          if bb' = -1 then Inl AssertFail
          else if flags ov AND OVL_COMP \<noteq> 0
          then Inr (DB_READ_LEN fctx (bread ov) - be', DB_READ_LEN fctx (bread ov) - bb')
          else Inr (bb', be'))"

text \<open>Lines 856-872: the sum of the Q values of the B segments \<open>ks\<close>, 0 when one of them is 0.\<close>

fun weak_q :: "int list \<Rightarrow> int list \<Rightarrow> int \<Rightarrow> error + int" where
  "weak_q qb [] q = Inr q"
| "weak_q qb (k # ks) q =
     (case rd qb k of
        Inl err \<Rightarrow> Inl err
      | Inr v \<Rightarrow> if v = 0 then Inr 0 else weak_q qb ks (q + v))"

text \<open>
  The state of the loop over the overlaps for one weak segment (lines 813-818). The
  \<^verbatim>\<open>float\<close> \<open>q_min\<close> is kept as the exact fraction \<open>q / (end - beg)\<close> it is computed from; the
  two B positions are only read after they have been assigned.
\<close>

record weak_state =
  w_span :: int
  w_border :: int
  q_min :: "int \<times> int"
  ovl_q_min :: int
  bb_q_min :: int
  be_q_min :: int

definition frac_less :: "int \<times> int \<Rightarrow> int \<times> int \<Rightarrow> bool" where
  "frac_less x y = (fst x * snd y < fst y * snd x)"

definition weak_border :: "Overlap \<Rightarrow> int \<Rightarrow> int \<Rightarrow> weak_state \<Rightarrow> weak_state" where
  "weak_border ov ab' ae' st =
     (if (abpos ov \<ge> ab' \<and> abpos ov \<le> ae') \<or> (aepos ov \<ge> ab' \<and> aepos ov \<le> ae')
      then st\<lparr> w_border := w_border st + 1 \<rparr> else st)"

text \<open>
  The loop over the overlaps (lines 820-901); \<open>j\<close> is the index of the overlap at the head
  of the list. The \<^verbatim>\<open>continue\<close> of line 876 also skips the border count.
\<close>

fun weak_scan :: "FixContext \<Rightarrow> int \<Rightarrow> int \<Rightarrow> Overlap list \<Rightarrow> int \<Rightarrow> weak_state \<Rightarrow> error + weak_state" where
  "weak_scan fctx ab' ae' [] j st = Inr st"
| "weak_scan fctx ab' ae' (ov # ovs) j st =
     (if abpos ov + 100 \<le> ab' \<and> aepos ov - 100 \<ge> ae'
      then
        (case weak_donor fctx ov ab' of
           Inl err \<Rightarrow> Inl err
         | Inr (bb', be') \<Rightarrow>
             (case weak_q (qtrack fctx (bread ov))
                     [cdiv bb' (twidth fctx) .. cdiv be' (twidth fctx) - 1] 0 of
                Inl err \<Rightarrow> Inl err
              | Inr q \<Rightarrow>
                  if q = 0 then weak_scan fctx ab' ae' ovs (j + 1) st
                  else
                    let q_new = (q, cdiv be' (twidth fctx) - cdiv bb' (twidth fctx));
                        st1 = (if ovl_q_min st = -1 \<or> frac_less q_new (q_min st)
                               then st\<lparr> bb_q_min := bb', be_q_min := be', q_min := q_new,
                                        ovl_q_min := j \<rparr>
                               else st);
                        st2 = st1\<lparr> w_span := w_span st1 + 1 \<rparr>
                    in weak_scan fctx ab' ae' ovs (j + 1) (weak_border ov ab' ae' st2)))
      else weak_scan fctx ab' ae' ovs (j + 1) (weak_border ov ab' ae' st))"

text \<open>
  The loop over the segments \<open>is\<close> of the trim interval (lines 751-931); \<open>data\<close> holds the
  candidates found so far, and a new one is appended at \<open>data[dcur]\<close>.
\<close>

fun weak_segments :: "FixContext \<Rightarrow> Overlap list \<Rightarrow> int list \<Rightarrow> int list \<Rightarrow> Gap list \<Rightarrow> error + Gap list" where
  "weak_segments fctx ovl qa [] data = Inr data"
| "weak_segments fctx ovl qa (i # is) data =
     (case rd qa i of
        Inl err \<Rightarrow> Inl err
      | Inr v \<Rightarrow>
          if v \<noteq> 0 \<and> v < lowq fctx then weak_segments fctx ovl qa is data
          else if list_ex (\<lambda>g. ab g \<le> (i + 1) * twidth fctx \<and> ae g \<ge> i * twidth fctx) data
          then weak_segments fctx ovl qa is data
          else
            (case weak_scan fctx (i * twidth fctx) ((i + 1) * twidth fctx) ovl 0
                    \<lparr> w_span = 0, w_border = 0, q_min = (0, 1), ovl_q_min = -1,
                      bb_q_min = 0, be_q_min = 0 \<rparr> of
               Inl err \<Rightarrow> Inl err
             | Inr st \<Rightarrow>
                 if ovl_q_min st = -1 then weak_segments fctx ovl qa is data
                 else
                   weak_segments fctx ovl qa is
                     (data @ [\<lparr> ab = i * twidth fctx, ae = (i + 1) * twidth fctx,
                                bb = bb_q_min st, be = be_q_min st,
                                diff = cdiv (fst (q_min st)) (snd (q_min st)),
                                b = bread (ovl ! nat (ovl_q_min st)),
                                support = w_border st, span = w_span st,
                                comp = flags (ovl ! nat (ovl_q_min st)) AND OVL_COMP \<rparr>])))"

definition find_weak :: "FixContext \<Rightarrow> Overlap list \<Rightarrow> int list \<Rightarrow> int \<times> int \<Rightarrow> Gap list \<Rightarrow> error + Gap list" where
  "find_weak fctx ovl qa t data =
     (case t of (trim_ab, trim_ae) \<Rightarrow>
        (case skip_zero_up qa (cdiv trim_ab (twidth fctx)) of
           Inl err \<Rightarrow> Inl err
         | Inr seg_first \<Rightarrow>
             (case skip_zero_down qa (cdiv trim_ae (twidth fctx)) of
                Inl err \<Rightarrow> Inl err
              | Inr seg_last \<Rightarrow> weak_segments fctx ovl qa [seg_first .. seg_last - 1] data)))"

text \<open>
  Lines 475-931: the candidates that reach the patching, those from gaps (after the
  merging) followed by those from weak segments.
\<close>

definition find_candidates :: "FixContext \<Rightarrow> Overlap list \<Rightarrow> int \<Rightarrow> int \<times> int \<Rightarrow> error + Gap list" where
  "find_candidates fctx ovl ar t =
     (case find_gaps fctx ovl of
        Inl err \<Rightarrow> Inl err
      | Inr raw \<Rightarrow>
          (case merge_gaps fctx ovl (qtrack fctx ar) raw of
             Inl err \<Rightarrow> Inl err
           | Inr data \<Rightarrow> find_weak fctx ovl (qtrack fctx ar) t data))"

text \<open>Lines 1021-1034: the candidates are sorted again and the spanning overlaps counted.\<close>

definition count_span :: "Overlap list \<Rightarrow> Gap list \<Rightarrow> Gap list" where
  "count_span ovl data =
     map (\<lambda>g. g\<lparr> span := span g
            + int (length (filter (\<lambda>ov. abpos ov + 100 < ab g \<and> aepos ov - 100 > ae g) ovl)) \<rparr>)
       data"

section \<open>fix_process: patching (lines 1045-1182)\<close>

text \<open>
  \<^verbatim>\<open>memcpy(dst, src + b, e - b)\<close> from a read buffer: the bytes \<open>[b, e)\<close> of the read. A range
  that leaves the read (or a negative length) copies bytes that are not bases of the
  read; the model stops there.
\<close>

definition slice :: "'a list \<Rightarrow> int \<Rightarrow> int \<Rightarrow> error + 'a list" where
  "slice xs b' e' =
     (if 0 \<le> b' \<and> b' \<le> e' \<and> e' \<le> int (length xs)
      then Inr (take (nat (e' - b')) (drop (nat b') xs))
      else Inl OutOfBounds)"

text \<open>
  Modelled from the spec: \<^verbatim>\<open>revcomp\<close> of \<^verbatim>\<open>lib/utils\<close> (absent) reverse-complements a
  stretch of bases in place: the order is reversed and every base is replaced by its
  complement (\<open>a\<close> with \<open>t\<close>, \<open>c\<close> with \<open>g\<close>; other bytes stay).
\<close>

definition complement :: "char \<Rightarrow> char" where
  "complement c =
     (if c = CHR ''a'' then CHR ''t'' else if c = CHR ''t'' then CHR ''a''
      else if c = CHR ''c'' then CHR ''g'' else if c = CHR ''g'' then CHR ''c''
      else if c = CHR ''A'' then CHR ''T'' else if c = CHR ''T'' then CHR ''A''
      else if c = CHR ''C'' then CHR ''G'' else if c = CHR ''G'' then CHR ''C''
      else c)"

definition revcomp :: "string \<Rightarrow> string" where
  "revcomp bs = rev (map complement bs)"

text \<open>
  The state of the patching loop: the cursor \<open>ab\<close> in A, the patched read with its length
  \<open>rlen\<close>, and the splice map \<open>apatches\<close> as a list of triples \<open>(ab, ae, rlen)\<close> (the C array
  holds them flattened, \<open>napatches\<close> being three times their number). \<open>spliced\<close> is a ghost
  field: the candidates whose B bytes were copied, each with the offset of its bytes in
  the patched read.
\<close>

record patch_state =
  cur_ab :: int
  rlen :: int
  read_patched :: string
  apatches :: "(int \<times> int \<times> int) list"
  spliced :: "(Gap \<times> int) list"

text \<open>Recording and copying \<open>A[ab..ae)\<close> (lines 1089-1103 and 1163-1177).\<close>

definition copy_a :: "string \<Rightarrow> int \<Rightarrow> int \<Rightarrow> patch_state \<Rightarrow> error + patch_state" where
  "copy_a reada ab' ae' s =
     (case slice reada ab' ae' of
        Inl err \<Rightarrow> Inl err
      | Inr bs \<Rightarrow>
          Inr (s\<lparr> apatches := apatches s @ [(ab', ae', rlen s)],
                 read_patched := read_patched s @ bs,
                 rlen := rlen s + (ae' - ab') \<rparr>))"

text \<open>Copying \<open>B[bb..be)\<close> of the donor read, reverse-complemented when \<open>comp\<close> is set (lines 1112-1141).\<close>

definition copy_b :: "FixContext \<Rightarrow> Gap \<Rightarrow> patch_state \<Rightarrow> error + patch_state" where
  "copy_b fctx g s =
     (case slice (db fctx (b g)) (bb g) (be g) of
        Inl err \<Rightarrow> Inl err
      | Inr bs \<Rightarrow>
          Inr (s\<lparr> spliced := spliced s @ [(g, rlen s)],
                 read_patched := read_patched s @ (if comp g \<noteq> 0 then revcomp bs else bs),
                 rlen := rlen s + (be g - bb g) \<rparr>))"

text \<open>The loop over the candidates (lines 1059-1157).\<close>

fun patch_loop :: "FixContext \<Rightarrow> string \<Rightarrow> int \<times> int \<Rightarrow> Gap list \<Rightarrow> patch_state \<Rightarrow> error + patch_state" where
  "patch_loop fctx reada t [] s = Inr s"
| "patch_loop fctx reada t (g # gs) s =
     (case t of (trim_ab, trim_ae) \<Rightarrow>
        if trim_ab > ab g then patch_loop fctx reada t gs (s\<lparr> cur_ab := ae g \<rparr>)
        else if trim_ae < ae g then Inr s
        else
          let ae' = ab g;
              ab' = (if trim_ab < ae' \<and> trim_ab > cur_ab s then trim_ab else cur_ab s)
          in if \<not> ab' \<le> ae' then Inl AssertFail
             else
               (case (if ab' < ae' then copy_a reada ab' ae' (s\<lparr> cur_ab := ab' \<rparr>)
                      else Inr (s\<lparr> cur_ab := ab' \<rparr>)) of
                  Inl err \<Rightarrow> Inl err
                | Inr s1 \<Rightarrow>
                    (case copy_b fctx g (s1\<lparr> cur_ab := ae g \<rparr>) of
                       Inl err \<Rightarrow> Inl err
                     | Inr s2 \<Rightarrow> patch_loop fctx reada t gs s2)))"

text \<open>The loop from the trim start, followed by the tail \<open>A[ab..trim_ae)\<close> (lines 1045-1182).\<close>

definition patch_read :: "FixContext \<Rightarrow> int \<Rightarrow> int \<times> int \<Rightarrow> Gap list \<Rightarrow> error + patch_state" where
  "patch_read fctx ar t data =
     (case t of (trim_ab, trim_ae) \<Rightarrow>
        (case patch_loop fctx (db fctx ar) t data
                \<lparr> cur_ab = trim_ab, rlen = 0, read_patched = [], apatches = [], spliced = [] \<rparr> of
           Inl err \<Rightarrow> Inl err
         | Inr s \<Rightarrow>
             if cur_ab s < trim_ae then copy_a (db fctx ar) (cur_ab s) trim_ae s else Inr s))"

text \<open>
  Where a byte of the patched read comes from. \<open>from_a\<close>: position \<open>k\<close> lies in the image of
  a splice-map triple and holds the byte of A at the corresponding position. \<open>from_b\<close>:
  position \<open>k\<close> lies in the bytes copied for a candidate and holds the byte of the donor at
  the corresponding position of \<open>[bb, be)\<close>, counted from \<open>bb\<close> upwards, or, when \<open>comp\<close> is
  set, the complement of the byte counted from \<open>be - 1\<close> downwards.
\<close>

definition from_a :: "string \<Rightarrow> patch_state \<Rightarrow> nat \<Rightarrow> bool" where
  "from_a reada s k =
     (\<exists>(ab', ae', off) \<in> set (apatches s).
        off \<le> int k \<and> int k < off + (ae' - ab') \<and> 0 \<le> ab' \<and> ae' \<le> int (length reada)
        \<and> read_patched s ! k = reada ! nat (ab' + (int k - off)))"

definition from_b :: "FixContext \<Rightarrow> patch_state \<Rightarrow> nat \<Rightarrow> bool" where
  "from_b fctx s k =
     (\<exists>(g, off) \<in> set (spliced s).
        off \<le> int k \<and> int k < off + (be g - bb g) \<and> 0 \<le> bb g \<and> be g \<le> int (length (db fctx (b g)))
        \<and> read_patched s ! k =
            (if comp g \<noteq> 0 then complement (db fctx (b g) ! nat (be g - 1 - (int k - off)))
             else db fctx (b g) ! nat (bb g + (int k - off))))"

section \<open>fix_process: the track intervals of the header (lines 945-996, 1204-1304)\<close>

text \<open>
  The loop over the splice map for one interval \<open>[ib, ie)\<close> (lines 1235-1266); \<open>prev\<close> is the
  triple before the current one (none for \<open>j = 0\<close>), the state is \<open>(ib_adj, ie_adj)\<close>, with
  -1 for "not yet assigned".
\<close>

fun adjust_loop :: "(int \<times> int \<times> int) list \<Rightarrow> (int \<times> int \<times> int) option \<Rightarrow> int \<Rightarrow> int
    \<Rightarrow> int \<times> int \<Rightarrow> int \<times> int" where
  "adjust_loop [] prev ib ie st = st"
| "adjust_loop ((pb, pe, off) # ps) prev ib ie (ib_adj, ie_adj) =
     (let ib_adj1 = (if ib_adj = -1 \<and> ib < pe then off + (max ib pb - pb) else ib_adj)
      in if ie_adj = -1 \<and> ie \<le> pe
         then (case (if ie < pb then prev else None) of
                 Some (qb, qe, qoff) \<Rightarrow> (ib_adj1, qoff + (qe - qb))
               | None \<Rightarrow>
                   if ie > pb then (ib_adj1, off + (ie - pb))
                   else adjust_loop ps (Some (pb, pe, off)) ib ie (ib_adj1, ie_adj))
         else adjust_loop ps (Some (pb, pe, off)) ib ie (ib_adj1, ie_adj))"

text \<open>
  One interval against the splice map (lines 1220-1301): \<open>Inr None\<close> when it is dropped,
  \<open>Inr (Some (ib_adj, ie_adj))\<close> when it is written, \<open>Exit1\<close> when the sanity check fails.
  With an empty splice map the test of line 1225 reads cells nothing was written to.
\<close>

definition adjust_interval :: "(int \<times> int \<times> int) list \<Rightarrow> int \<Rightarrow> int \<times> int \<Rightarrow> error + (int \<times> int) option" where
  "adjust_interval ps rl iv =
     (case iv of (ib, ie) \<Rightarrow>
        (case ps of
           [] \<Rightarrow> Inl OutOfBounds
         | p0 # rest \<Rightarrow>
             if ie < fst p0 \<or> ib > fst (snd (last ps)) then Inr None
             else
               (case adjust_loop ps None ib ie (-1, -1) of (ib_adj, ie_adj) \<Rightarrow>
                  if ie_adj - ib_adj > MIN_INT_LEN
                  then (if ib_adj < 0 \<or> ib_adj > rl \<or> ib_adj > ie_adj \<or> ie_adj > rl
                        then Inl Exit1 else Inr (Some (ib_adj, ie_adj)))
                  else Inr None)))"

fun adjust_track :: "(int \<times> int \<times> int) list \<Rightarrow> int \<Rightarrow> (int \<times> int) list \<Rightarrow> error + (int \<times> int) list" where
  "adjust_track ps rl [] = Inr []"
| "adjust_track ps rl (iv # ivs) =
     (case adjust_interval ps rl iv of
        Inl err \<Rightarrow> Inl err
      | Inr r \<Rightarrow>
          (case adjust_track ps rl ivs of
             Inl err \<Rightarrow> Inl err
           | Inr out \<Rightarrow> Inr (case r of None \<Rightarrow> out | Some x \<Rightarrow> x # out)))"

text \<open>
  The loop over the tracks to convert (lines 1205-1304): a track appears in the header
  with the intervals written for it, when there is at least one.
\<close>

fun adjust_tracks :: "(int \<times> int \<times> int) list \<Rightarrow> int \<Rightarrow> int
    \<Rightarrow> (string \<times> (int \<Rightarrow> (int \<times> int) list)) list \<Rightarrow> error + (string \<times> (int \<times> int) list) list" where
  "adjust_tracks ps rl ar [] = Inr []"
| "adjust_tracks ps rl ar ((track, ivs) # ts) =
     (case adjust_track ps rl (ivs ar) of
        Inl err \<Rightarrow> Inl err
      | Inr out \<Rightarrow>
          (case adjust_tracks ps rl ar ts of
             Inl err \<Rightarrow> Inl err
           | Inr fs \<Rightarrow> Inr (if out = [] then fs else (track, out) # fs)))"

text \<open>
  The intervals of one track for a read that is only trimmed (lines 955-994): shifted by
  \<open>trim_ab\<close> and clipped to the trim; an interval that starts behind the trim ends the loop.
\<close>

fun trimmed_intervals :: "int \<times> int \<Rightarrow> (int \<times> int) list \<Rightarrow> (int \<times> int) list" where
  "trimmed_intervals t [] = []"
| "trimmed_intervals t ((ib, ie) # ivs) =
     (case t of (trim_ab, trim_ae) \<Rightarrow>
        if ie - trim_ab < 0 then trimmed_intervals t ivs
        else
          let beg = (if ib - trim_ab < 0 then 0 else ib - trim_ab)
          in if beg > trim_ae - trim_ab then []
             else (beg, (if ie - trim_ab > trim_ae - trim_ab then trim_ae - trim_ab
                         else ie - trim_ab)) # trimmed_intervals t ivs)"

definition trimmed_tracks :: "int \<times> int \<Rightarrow> int
    \<Rightarrow> (string \<times> (int \<Rightarrow> (int \<times> int) list)) list \<Rightarrow> (string \<times> (int \<times> int) list) list" where
  "trimmed_tracks t ar ts =
     filter (\<lambda>(track, out). out \<noteq> [])
       (map (\<lambda>(track, ivs). (track, trimmed_intervals t (ivs ar))) ts)"

section \<open>fix_process: the output (lines 933-1019, 1188-1325)\<close>

text \<open>
  One entry of the FASTA output: the header \<^verbatim>\<open>>fixed_<aread> source=<aread>\<close> or
  \<^verbatim>\<open>>trimmed_<aread> source=<aread>\<close>, the tracks of the header, and the bases (which
  \<^verbatim>\<open>wrap_write\<close> breaks into lines of 60).
\<close>

record fasta_entry =
  prefix :: string
  source :: int
  tracks :: "(string \<times> (int \<times> int) list) list"
  bases :: string

definition emit_trimmed :: "FixContext \<Rightarrow> int \<Rightarrow> int \<times> int \<Rightarrow> error + fasta_entry option" where
  "emit_trimmed fctx ar t =
     (case t of (trim_ab, trim_ae) \<Rightarrow>
        if trim_ae - trim_ab \<ge> minlen fctx
        then (case slice (db fctx ar) trim_ab trim_ae of
                Inl err \<Rightarrow> Inl err
              | Inr bs \<Rightarrow>
                  Inr (Some \<lparr> prefix = ''trimmed_'', source = ar,
                         tracks = trimmed_tracks t ar (convertTracks fctx), bases = bs \<rparr>))
        else Inr None)"

definition emit_fixed :: "FixContext \<Rightarrow> int \<Rightarrow> int \<times> int \<Rightarrow> Gap list \<Rightarrow> error + fasta_entry option" where
  "emit_fixed fctx ar t data =
     (case patch_read fctx ar t data of
        Inl err \<Rightarrow> Inl err
      | Inr s \<Rightarrow>
          if rlen s \<ge> minlen fctx
          then (case adjust_tracks (apatches s) (rlen s) ar (convertTracks fctx) of
                  Inl err \<Rightarrow> Inl err
                | Inr fs \<Rightarrow>
                    Inr (Some \<lparr> prefix = ''fixed_'', source = ar, tracks = fs,
                           bases = read_patched s \<rparr>))
          else Inr None)"

text \<open>
  \<^verbatim>\<open>fix_process\<close> for one group of overlaps: \<open>Inr None\<close> when nothing is written for the
  read, \<open>Inr (Some e)\<close> when the entry \<open>e\<close> is written.
\<close>

definition fix_process :: "FixContext \<Rightarrow> Overlap list \<Rightarrow> error + fasta_entry option" where
  "fix_process fctx ovl =
     (case ovl of
        [] \<Rightarrow> Inl OutOfBounds
      | ovl0 # rest \<Rightarrow>
          (case fix_trim fctx ovl of
             Inl err \<Rightarrow> Inl err
           | Inr None \<Rightarrow> Inr None
           | Inr (Some t) \<Rightarrow>
               (case find_candidates fctx ovl (aread ovl0) t of
                  Inl err \<Rightarrow> Inl err
                | Inr data \<Rightarrow>
                    if data = [] then emit_trimmed fctx (aread ovl0) t
                    else emit_fixed fctx (aread ovl0) t (count_span ovl (qsort_gaps data)))))"

section \<open>Scenario S4\<close>

text \<open>
  Read 3 of length 1000, segment width 100, no trim track; one complemented self overlap
  with A range 200..500 and B range 500..800, over the trace \<open>tr\<close>.
\<close>

definition S4_ctx :: FixContext where
  "S4_ctx = \<lparr> db = (\<lambda>r. replicate 1000 CHR ''a''), twidth = 100, minlen = 50,
     lowq = 28, maxgap = 500, qtrack = (\<lambda>r. replicate 10 10), trimtrack = None,
     dusttrack = (\<lambda>r. []), convertTracks = [] \<rparr>"

definition S4_ovl :: "int list \<Rightarrow> Overlap" where
  "S4_ovl tr = \<lparr> aread = 3, bread = 3, flags = 1, abpos = 200, aepos = 500,
     bbpos = 500, bepos = 800, trace = tr \<rparr>"

text \<open>An overlap of read 3 with read 4 over the whole of both, which follows the self overlap.\<close>

definition S4_next :: Overlap where
  "S4_next = \<lparr> aread = 3, bread = 4, flags = 0, abpos = 0, aepos = 1000,
     bbpos = 0, bepos = 1000, trace = [0, 100, 0, 100, 0, 100, 0, 100, 0, 100, 0, 100, 0, 100,
       0, 100, 0, 100, 0, 100] \<rparr>"

section \<open>Predicates of the proofs\<close>

text \<open>
  What the merging loops may do to a candidate: every field but \<open>support\<close> stays, a
  dropped candidate (support -1) stays dropped, and a candidate with positive support is
  dropped or keeps a positive support.
\<close>

definition merged_from :: "Gap \<Rightarrow> Gap \<Rightarrow> bool" where
  "merged_from g g' =
     (g'\<lparr> support := 0 \<rparr> = g\<lparr> support := 0 \<rparr>
      \<and> (support g = -1 \<longrightarrow> support g' = -1)
      \<and> (1 \<le> support g \<longrightarrow> support g' = -1 \<or> 1 \<le> support g'))"

definition merged_list :: "Gap list \<Rightarrow> Gap list \<Rightarrow> bool" where
  "merged_list D D' = (length D' = length D \<and> (\<forall>k < length D. merged_from (D ! k) (D' ! k)))"

definition supports_ok :: "Gap list \<Rightarrow> bool" where
  "supports_ok D = (\<forall>g \<in> set D. support g = -1 \<or> 1 \<le> support g)"

text \<open>The negation of the test of line 616.\<close>

definition gap_bound :: "int \<Rightarrow> Gap \<Rightarrow> bool" where
  "gap_bound mg g = (ae g - ab g < mg \<and> \<bar>be g - bb g\<bar> < mg)"


section \<open>Scenario S2\<close>

text \<open>
  Read 1 of length 400 with Q values 10, 40, 10, 12 and one overlap with read 7 over the
  whole of both reads; the Q values of read 7 are 8, 9, 10, 11. \<open>mg\<close> is the configured
  \<open>maxgap\<close>, \<open>dust7\<close> the dust intervals of read 7.
\<close>

definition S2_ctx :: "int \<Rightarrow> (int \<times> int) list \<Rightarrow> FixContext" where
  "S2_ctx mg dust7 = \<lparr> db = (\<lambda>r. if r = 1 then replicate 400 CHR ''a'' else replicate 400 CHR ''c''),
     twidth = 100, minlen = 50, lowq = 28, maxgap = mg,
     qtrack = (\<lambda>r. if r = 1 then [10, 40, 10, 12] else [8, 9, 10, 11]), trimtrack = None,
     dusttrack = (\<lambda>r. if r = 7 then dust7 else []), convertTracks = [] \<rparr>"

definition S2_ovl :: Overlap where
  "S2_ovl = \<lparr> aread = 1, bread = 7, flags = 0, abpos = 0, aepos = 400, bbpos = 0, bepos = 400,
     trace = [0, 100, 0, 100, 0, 100, 0, 100] \<rparr>"

definition S2_gap :: Gap where
  "S2_gap = \<lparr> ab = 100, ae = 200, bb = 100, be = 200, diff = 9, b = 7, support = 0, span = 1, comp = 0 \<rparr>"

definition S2_fixed :: fasta_entry where
  "S2_fixed = \<lparr> prefix = ''fixed_'', source = 1, tracks = [],
     bases = replicate 100 CHR ''a'' @ replicate 100 CHR ''c'' @ replicate 200 CHR ''a'' \<rparr>"

text \<open>
  The same overlap aligned to the reverse complement of read 7, and the entry written for
  it: the weak segment \<open>A[100, 200)\<close> is replaced by the reverse complement of
  \<open>B[200, 300)\<close>.
\<close>

definition S2c_ovl :: Overlap where
  "S2c_ovl = \<lparr> aread = 1, bread = 7, flags = 1, abpos = 0, aepos = 400, bbpos = 0, bepos = 400,
     trace = [0, 100, 0, 100, 0, 100, 0, 100] \<rparr>"

definition S2c_fixed :: fasta_entry where
  "S2c_fixed = \<lparr> prefix = ''fixed_'', source = 1, tracks = [],
     bases = replicate 100 CHR ''a'' @ replicate 100 CHR ''g'' @ replicate 200 CHR ''a'' \<rparr>"

section \<open>Scenario S3\<close>

text \<open>
  Read 2 of length 500 (all \<open>a\<close>) with Q values 10, 10, 40, 10, 10; every other read has
  length 500 (all \<open>c\<close>) and Q values 10; segment width 100, low-Q threshold 28, \<open>maxgap\<close>
  500, minimal length 50, no dust; \<open>ct\<close> are the tracks to convert. \<open>S3_pair r\<close> are the two
  overlaps of the scenario with B read \<open>r\<close>: A 0..200 with B 0..200 and A 300..500 with
  B 300..500. \<open>S3_five\<close> is the group in which five B reads show this gap.
\<close>

definition S3_ctx :: "(string \<times> (int \<Rightarrow> (int \<times> int) list)) list \<Rightarrow> FixContext" where
  "S3_ctx ct = \<lparr> db = (\<lambda>r. if r = 2 then replicate 500 CHR ''a'' else replicate 500 CHR ''c''),
     twidth = 100, minlen = 50, lowq = 28, maxgap = 500,
     qtrack = (\<lambda>r. if r = 2 then [10, 10, 40, 10, 10] else [10, 10, 10, 10, 10]), trimtrack = None,
     dusttrack = (\<lambda>r. []), convertTracks = ct \<rparr>"

definition S3_pair :: "int \<Rightarrow> Overlap list" where
  "S3_pair r = [\<lparr> aread = 2, bread = r, flags = 0, abpos = 0, aepos = 200, bbpos = 0, bepos = 200,
                trace = [0, 100, 0, 100] \<rparr>,
              \<lparr> aread = 2, bread = r, flags = 0, abpos = 300, aepos = 500, bbpos = 300, bepos = 500,
                trace = [0, 100, 0, 100] \<rparr>]"

definition S3_gap :: "int \<Rightarrow> int \<Rightarrow> Gap" where
  "S3_gap r n = \<lparr> ab = 100, ae = 400, bb = 100, be = 400, diff = 13, b = r, support = n,
     span = 0, comp = 0 \<rparr>"

definition S3_five :: "Overlap list" where
  "S3_five = S3_pair 9 @ S3_pair 10 @ S3_pair 11 @ S3_pair 12 @ S3_pair 13"

definition S3_raw :: "Gap list" where
  "S3_raw = [S3_gap 9 1, S3_gap 10 1, S3_gap 11 1, S3_gap 12 1, S3_gap 13 1]"


definition S3_trimmed :: "(string \<times> (int \<times> int) list) list \<Rightarrow> fasta_entry" where
  "S3_trimmed ts = \<lparr> prefix = ''trimmed_'', source = 2, tracks = ts, bases = replicate 500 CHR ''a'' \<rparr>"

definition S3_fixed :: "(string \<times> (int \<times> int) list) list \<Rightarrow> fasta_entry" where
  "S3_fixed ts = \<lparr> prefix = ''fixed_'', source = 2, tracks = ts,
     bases = replicate 100 CHR ''a'' @ replicate 300 CHR ''c'' @ replicate 100 CHR ''a'' \<rparr>"

definition REP :: "(string \<times> (int \<Rightarrow> (int \<times> int) list)) list" where
  "REP = [(''REP'', \<lambda>r. [(10, 13), (410, 480)])]"


text \<open>
  Scenario S3 with dust on every read. \<open>S3_dust_ctx\<close> has the dust intervals \<open>[50, 150)\<close>
  and \<open>[350, 450)\<close>, which reach into the B interval \<open>[100, 400)\<close> of the gap from both
  sides without lying inside it; \<open>S5_ctx\<close> has the dust interval \<open>[200, 300)\<close> of scenario
  S5, which lies inside it.
\<close>

definition S3_dust_ctx :: FixContext where
  "S3_dust_ctx = (S3_ctx [])\<lparr> dusttrack := (\<lambda>r. [(50, 150), (350, 450)]) \<rparr>"

definition S5_ctx :: FixContext where
  "S5_ctx = (S3_ctx [])\<lparr> dusttrack := (\<lambda>r. [(200, 300)]) \<rparr>"

section \<open>The flip detector and the trim interval\<close>











lemma S4_len: "DB_READ_LEN S4_ctx r = 1000"
  by (simp add: DB_READ_LEN_def S4_ctx_def)

lemma S4_segs:
  "flip_segs 100 1000 [d1, w1, d2, w2, d3, w3] 2 (200, 300, 500, 500 + w1) (0, 0, 1000) =
     (if intersect 200 300 (1000 - (500 + w1)) (1000 - 500) \<noteq> 0 then (1, 300, 1000) else (0, 0, 1000))"
  by (simp add: flip_segs.simps [of _ _ _ 2] flip_segs.simps [of _ _ _ 4] trim_seg_def)

lemma S4_filter:
  assumes "\<forall>ovl \<in> set rest. 3 < bread ovl"
  shows "\<exists>trimmed trim_b. filter_flips S4_ctx (S4_ovl [d1, w1, d2, w2, d3, w3] # rest) (0, 1000)
            = Inr (trimmed, trim_b, 1000) \<and> (trim_b = 0 \<or> trim_b = 300)"
proof (cases rest)
  case Nil
  then show ?thesis
    by (simp add: filter_flips_def S4_ovl_def OVL_COMP_def ovl_range_def S4_len)
next
  case (Cons ovl rest')
  with assms have "3 < bread ovl" by simp
  then show ?thesis using Cons
    by (simp add: filter_flips_def S4_ovl_def OVL_COMP_def ovl_range_def S4_len intersect_def
        rd_def cdiv_def S4_ctx_def flip_segs.simps [of _ _ _ 2] flip_segs.simps [of _ _ _ 4] trim_seg_def)
qed


text \<open>
  Claim C5 (flip trim monotonicity). The trim interval that results from running the flip
  detector and intersecting its answer with the original trim (lines 428-436) starts no
  earlier and ends no later than the original one: the adjustment only narrows the trim.
\<close>

theorem flip_trim_monotone:
  "flip_trim fctx ovls (trim_ab, trim_ae) = Inr (trim_ab', trim_ae') \<Longrightarrow>
   trim_ab \<le> trim_ab' \<and> trim_ae' \<le> trim_ae"
  by (auto simp: flip_trim_def split: sum.splits)

theorem flip_trim_monotone_witness:
  "flip_trim S4_ctx [S4_ovl [0, 250, 0, 25, 0, 25], S4_next] (0, 1000) = Inr (300, 1000)
   \<and> (0::int) \<le> 300 \<and> (1000::int) \<le> 1000"
proof -
  have h: "flip_trim S4_ctx [S4_ovl [0, 250, 0, 25, 0, 25], S4_next] (0, 1000) = Inr (300, 1000)"
    by code_simp
  from flip_trim_monotone [OF h] h show ?thesis by simp
qed




text \<open>
  Claim C3 (scenario S4), as the code has it. For read 3 of length 1000 with the
  complemented self overlap A 200..500, B 500..800 over a trace of three segments, alone
  or followed by overlaps with larger B reads: the A range and the flipped B range
  \<open>[200, 500)\<close> intersect, the trim end stays 1000, and the trim start after the flip
  adjustment is a multiple of the segment width (a flagged segment moves it to that
  segment's end), hence never the midpoint 350.
\<close>

theorem S4_trim_is_segment_boundary:
  assumes "\<forall>ovl \<in> set rest. 3 < bread ovl"
  shows "intersect (abpos (S4_ovl tr)) (aepos (S4_ovl tr))
           (DB_READ_LEN S4_ctx 3 - bepos (S4_ovl tr)) (DB_READ_LEN S4_ctx 3 - bbpos (S4_ovl tr)) \<noteq> 0
    \<and> (\<exists>trim_ab. flip_trim S4_ctx (S4_ovl [d1, w1, d2, w2, d3, w3] # rest) (0, 1000) = Inr (trim_ab, 1000)
          \<and> twidth S4_ctx dvd trim_ab \<and> trim_ab \<noteq> 350)"
proof
  show "intersect (abpos (S4_ovl tr)) (aepos (S4_ovl tr))
           (DB_READ_LEN S4_ctx 3 - bepos (S4_ovl tr)) (DB_READ_LEN S4_ctx 3 - bbpos (S4_ovl tr)) \<noteq> 0"
    by (simp add: S4_len S4_ovl_def intersect_def)
next
  from S4_filter [OF assms, of d1 w1 d2 w2 d3 w3] obtain trimmed trim_b where
    ff: "filter_flips S4_ctx (S4_ovl [d1, w1, d2, w2, d3, w3] # rest) (0, 1000) = Inr (trimmed, trim_b, 1000)"
    and tb: "trim_b = 0 \<or> trim_b = 300" by blast
  from ff have "flip_trim S4_ctx (S4_ovl [d1, w1, d2, w2, d3, w3] # rest) (0, 1000) = Inr (max trim_b 0, 1000)"
    by (simp add: flip_trim_def)
  moreover have "twidth S4_ctx dvd max trim_b 0 \<and> max trim_b 0 \<noteq> 350"
    using tb by (auto simp: S4_ctx_def)
  ultimately show "\<exists>trim_ab. flip_trim S4_ctx (S4_ovl [d1, w1, d2, w2, d3, w3] # rest) (0, 1000) = Inr (trim_ab, 1000)
          \<and> twidth S4_ctx dvd trim_ab \<and> trim_ab \<noteq> 350" by blast
qed

theorem S4_trim_is_segment_boundary_witness:
  "\<exists>trim_ab. flip_trim S4_ctx [S4_ovl [0, 250, 0, 25, 0, 25], S4_next] (0, 1000) = Inr (trim_ab, 1000)
          \<and> twidth S4_ctx dvd trim_ab \<and> trim_ab \<noteq> 350"
proof -
  have h: "\<forall>ovl \<in> set [S4_next]. 3 < bread ovl" by (simp add: S4_next_def)
  from S4_trim_is_segment_boundary [OF h] show ?thesis by blast
qed

theorem S4_midpoint_counterexample:
  "flip_trim S4_ctx [S4_ovl [0, 100, 0, 100, 0, 100]] (0, 1000) = Inr (0, 1000)
   \<and> flip_trim S4_ctx [S4_ovl [0, 100, 0, 100, 0, 100], S4_next] (0, 1000) = Inr (0, 1000)
   \<and> flip_trim S4_ctx [S4_ovl [0, 250, 0, 25, 0, 25], S4_next] (0, 1000) = Inr (300, 1000)"
  by code_simp

section \<open>The patched read\<close>

lemma slice_length: "slice xs b' e' = Inr bs \<Longrightarrow> int (length bs) = e' - b'"
  by (auto simp: slice_def split: if_splits)

lemma slice_range: "slice xs b' e' = Inr bs \<Longrightarrow> 0 \<le> b' \<and> b' \<le> e' \<and> e' \<le> int (length xs)"
  by (auto simp: slice_def split: if_splits)

lemma slice_nth: "slice xs b' e' = Inr bs \<Longrightarrow> i < length bs \<Longrightarrow> bs ! i = xs ! nat (b' + int i)"
  by (auto simp: slice_def nat_add_distrib split: if_splits)

lemma revcomp_nth: "i < length bs \<Longrightarrow> revcomp bs ! i = complement (bs ! (length bs - 1 - i))"
  by (simp add: revcomp_def rev_nth)

lemma length_revcomp: "length (revcomp bs) = length bs"
  by (simp add: revcomp_def)

subsection \<open>Length\<close>

lemma copy_a_length:
  assumes "copy_a reada ab' ae' s = Inr s'"
    and "int (length (read_patched s)) = rlen s"
    and "rlen s = (\<Sum>(pb, pe, off) \<leftarrow> apatches s. pe - pb) + (\<Sum>(g, off) \<leftarrow> spliced s. be g - bb g)"
  shows "int (length (read_patched s')) = rlen s'
    \<and> rlen s' = (\<Sum>(pb, pe, off) \<leftarrow> apatches s'. pe - pb) + (\<Sum>(g, off) \<leftarrow> spliced s'. be g - bb g)"
proof -
  from assms(1) obtain bs where sl: "slice reada ab' ae' = Inr bs"
    and s': "s' = s\<lparr> apatches := apatches s @ [(ab', ae', rlen s)],
                 read_patched := read_patched s @ bs, rlen := rlen s + (ae' - ab') \<rparr>"
    by (auto simp: copy_a_def split: sum.splits)
  from slice_length [OF sl] assms(2,3) show ?thesis by (simp add: s')
qed

lemma copy_b_length:
  assumes "copy_b fctx g s = Inr s'"
    and "int (length (read_patched s)) = rlen s"
    and "rlen s = (\<Sum>(pb, pe, off) \<leftarrow> apatches s. pe - pb) + (\<Sum>(g, off) \<leftarrow> spliced s. be g - bb g)"
  shows "int (length (read_patched s')) = rlen s'
    \<and> rlen s' = (\<Sum>(pb, pe, off) \<leftarrow> apatches s'. pe - pb) + (\<Sum>(g, off) \<leftarrow> spliced s'. be g - bb g)"
proof -
  from assms(1) obtain bs where sl: "slice (db fctx (b g)) (bb g) (be g) = Inr bs"
    and s': "s' = s\<lparr> spliced := spliced s @ [(g, rlen s)],
                 read_patched := read_patched s @ (if comp g \<noteq> 0 then revcomp bs else bs),
                 rlen := rlen s + (be g - bb g) \<rparr>"
    by (auto simp: copy_b_def split: sum.splits)
  from slice_length [OF sl] assms(2,3) show ?thesis by (simp add: s' length_revcomp)
qed

lemma patch_loop_length:
  assumes "patch_loop fctx reada t gs s = Inr s'"
    and "int (length (read_patched s)) = rlen s"
    and "rlen s = (\<Sum>(pb, pe, off) \<leftarrow> apatches s. pe - pb) + (\<Sum>(g, off) \<leftarrow> spliced s. be g - bb g)"
  shows "int (length (read_patched s')) = rlen s'
    \<and> rlen s' = (\<Sum>(pb, pe, off) \<leftarrow> apatches s'. pe - pb) + (\<Sum>(g, off) \<leftarrow> spliced s'. be g - bb g)"
  using assms
proof (induction gs arbitrary: s)
  case Nil
  then show ?case by simp
next
  case (Cons g gs)
  obtain trim_ab trim_ae where t: "t = (trim_ab, trim_ae)" by (cases t)
  show ?case
  proof (cases "trim_ab > ab g")
    case True
    with Cons.prems(1) t have "patch_loop fctx reada t gs (s\<lparr> cur_ab := ae g \<rparr>) = Inr s'" by simp
    from Cons.IH [OF this] Cons.prems(2,3) show ?thesis by simp
  next
    case False
    note nskip = this
    show ?thesis
    proof (cases "trim_ae < ae g")
      case True
      with nskip Cons.prems t show ?thesis by simp
    next
      case False
      define ab' where "ab' = (if trim_ab < ab g \<and> trim_ab > cur_ab s then trim_ab else cur_ab s)"
      from Cons.prems(1) t nskip False obtain s1 s2 where
        s1: "(if ab' < ab g then copy_a reada ab' (ab g) (s\<lparr> cur_ab := ab' \<rparr>)
              else Inr (s\<lparr> cur_ab := ab' \<rparr>)) = Inr s1"
        and s2: "copy_b fctx g (s1\<lparr> cur_ab := ae g \<rparr>) = Inr s2"
        and rest: "patch_loop fctx reada t gs s2 = Inr s'"
        by (auto simp: Let_def ab'_def split: if_splits sum.splits)
      have i1: "int (length (read_patched s1)) = rlen s1
        \<and> rlen s1 = (\<Sum>(pb, pe, off) \<leftarrow> apatches s1. pe - pb) + (\<Sum>(g, off) \<leftarrow> spliced s1. be g - bb g)"
      proof (cases "ab' < ab g")
        case True
        with s1 have "copy_a reada ab' (ab g) (s\<lparr> cur_ab := ab' \<rparr>) = Inr s1" by simp
        from copy_a_length [OF this] Cons.prems(2,3) show ?thesis by simp
      next
        case False
        with s1 Cons.prems(2,3) show ?thesis by auto
      qed
      from copy_b_length [OF s2] i1
      have "int (length (read_patched s2)) = rlen s2
        \<and> rlen s2 = (\<Sum>(pb, pe, off) \<leftarrow> apatches s2. pe - pb) + (\<Sum>(g, off) \<leftarrow> spliced s2. be g - bb g)"
        by simp
      with Cons.IH [OF rest] show ?thesis by simp
    qed
  qed
qed


subsection \<open>Origin of the bytes\<close>

lemma from_a_cur_ab [simp]: "from_a reada (s\<lparr> cur_ab := x \<rparr>) k = from_a reada s k"
  by (simp add: from_a_def)

lemma from_b_cur_ab [simp]: "from_b fctx (s\<lparr> cur_ab := x \<rparr>) k = from_b fctx s k"
  by (simp add: from_b_def)

lemma copy_a_bytes:
  assumes "copy_a reada ab' ae' s = Inr s'"
    and len: "int (length (read_patched s)) = rlen s"
    and inv: "\<forall>k < length (read_patched s). from_a reada s k \<or> from_b fctx s k"
  shows "\<forall>k < length (read_patched s'). from_a reada s' k \<or> from_b fctx s' k"
proof (intro allI impI)
  fix k
  assume k: "k < length (read_patched s')"
  from assms(1) obtain bs where sl: "slice reada ab' ae' = Inr bs"
    and s': "s' = s\<lparr> apatches := apatches s @ [(ab', ae', rlen s)],
                 read_patched := read_patched s @ bs, rlen := rlen s + (ae' - ab') \<rparr>"
    by (auto simp: copy_a_def split: sum.splits)
  show "from_a reada s' k \<or> from_b fctx s' k"
  proof (cases "k < length (read_patched s)")
    case True
    with inv have "from_a reada s k \<or> from_b fctx s k" by simp
    then show ?thesis
    proof
      assume "from_a reada s k"
      then have "from_a reada s' k" using True by (auto simp: from_a_def s' nth_append)
      then show ?thesis ..
    next
      assume "from_b fctx s k"
      then have "from_b fctx s' k" using True by (auto simp: from_b_def s' nth_append)
      then show ?thesis ..
    qed
  next
    case False
    define i where "i = k - length (read_patched s)"
    from False k have i: "i < length bs" "k = length (read_patched s) + i"
      by (auto simp: i_def s')
    from slice_nth [OF sl i(1)] slice_length [OF sl] slice_range [OF sl] i len
    have "rlen s \<le> int k \<and> int k < rlen s + (ae' - ab') \<and> 0 \<le> ab' \<and> ae' \<le> int (length reada)
        \<and> read_patched s' ! k = reada ! nat (ab' + (int k - rlen s))"
      by (simp add: s' nth_append)
    then have "from_a reada s' k" unfolding from_a_def by (auto simp: s')
    then show ?thesis ..
  qed
qed

lemma copy_b_bytes:
  assumes "copy_b fctx g s = Inr s'"
    and len: "int (length (read_patched s)) = rlen s"
    and inv: "\<forall>k < length (read_patched s). from_a reada s k \<or> from_b fctx s k"
  shows "\<forall>k < length (read_patched s'). from_a reada s' k \<or> from_b fctx s' k"
proof (intro allI impI)
  fix k
  assume k: "k < length (read_patched s')"
  from assms(1) obtain bs where sl: "slice (db fctx (b g)) (bb g) (be g) = Inr bs"
    and s': "s' = s\<lparr> spliced := spliced s @ [(g, rlen s)],
                 read_patched := read_patched s @ (if comp g \<noteq> 0 then revcomp bs else bs),
                 rlen := rlen s + (be g - bb g) \<rparr>"
    by (auto simp: copy_b_def split: sum.splits)
  show "from_a reada s' k \<or> from_b fctx s' k"
  proof (cases "k < length (read_patched s)")
    case True
    with inv have "from_a reada s k \<or> from_b fctx s k" by simp
    then show ?thesis
    proof
      assume "from_a reada s k"
      then have "from_a reada s' k" using True by (auto simp: from_a_def s' nth_append)
      then show ?thesis ..
    next
      assume "from_b fctx s k"
      then have "from_b fctx s' k" using True by (auto simp: from_b_def s' nth_append)
      then show ?thesis ..
    qed
  next
    case False
    define i where "i = k - length (read_patched s)"
    from False k have i: "i < length bs" "k = length (read_patched s) + i"
      by (auto simp: i_def s' length_revcomp split: if_splits)
    note L = slice_length [OF sl] and R = slice_range [OF sl]
    have byte: "read_patched s' ! k =
            (if comp g \<noteq> 0 then complement (db fctx (b g) ! nat (be g - 1 - (int k - rlen s)))
             else db fctx (b g) ! nat (bb g + (int k - rlen s)))"
    proof (cases "comp g \<noteq> 0")
      case True
      have j: "length bs - 1 - i < length bs" using i(1) by simp
      have "int (length bs - 1 - i) = be g - bb g - 1 - int i" using i(1) L by simp
      then have "bb g + int (length bs - 1 - i) = be g - 1 - int i" by simp
      with slice_nth [OF sl j] have "bs ! (length bs - 1 - i) = db fctx (b g) ! nat (be g - 1 - int i)"
        by simp
      with True i len show ?thesis by (simp add: s' nth_append revcomp_nth)
    next
      case False
      with slice_nth [OF sl i(1)] i len show ?thesis by (simp add: s' nth_append)
    qed
    from i L R len have "rlen s \<le> int k \<and> int k < rlen s + (be g - bb g) \<and> 0 \<le> bb g
        \<and> be g \<le> int (length (db fctx (b g)))" by simp
    with byte have "from_b fctx s' k" unfolding from_b_def by (auto simp: s')
    then show ?thesis ..
  qed
qed

lemma patch_loop_bytes:
  assumes "patch_loop fctx reada t gs s = Inr s'"
    and "int (length (read_patched s)) = rlen s"
    and "\<forall>k < length (read_patched s). from_a reada s k \<or> from_b fctx s k"
  shows "int (length (read_patched s')) = rlen s'
    \<and> (\<forall>k < length (read_patched s'). from_a reada s' k \<or> from_b fctx s' k)"
  using assms
proof (induction gs arbitrary: s)
  case Nil
  then show ?case by simp
next
  case (Cons g gs)
  obtain trim_ab trim_ae where t: "t = (trim_ab, trim_ae)" by (cases t)
  show ?case
  proof (cases "trim_ab > ab g")
    case True
    with Cons.prems(1) t have "patch_loop fctx reada t gs (s\<lparr> cur_ab := ae g \<rparr>) = Inr s'" by simp
    from Cons.IH [OF this] Cons.prems(2,3) show ?thesis by simp
  next
    case False
    note nskip = this
    show ?thesis
    proof (cases "trim_ae < ae g")
      case True
      with nskip Cons.prems t show ?thesis by simp
    next
      case False
      define ab' where "ab' = (if trim_ab < ab g \<and> trim_ab > cur_ab s then trim_ab else cur_ab s)"
      from Cons.prems(1) t nskip False obtain s1 s2 where
        s1: "(if ab' < ab g then copy_a reada ab' (ab g) (s\<lparr> cur_ab := ab' \<rparr>)
              else Inr (s\<lparr> cur_ab := ab' \<rparr>)) = Inr s1"
        and s2: "copy_b fctx g (s1\<lparr> cur_ab := ae g \<rparr>) = Inr s2"
        and rest: "patch_loop fctx reada t gs s2 = Inr s'"
        by (auto simp: Let_def ab'_def split: if_splits sum.splits)
      have i1: "int (length (read_patched s1)) = rlen s1
        \<and> (\<forall>k < length (read_patched s1). from_a reada s1 k \<or> from_b fctx s1 k)"
      proof (cases "ab' < ab g")
        case True
        with s1 have c: "copy_a reada ab' (ab g) (s\<lparr> cur_ab := ab' \<rparr>) = Inr s1" by simp
        have "int (length (read_patched s1)) = rlen s1"
          using c Cons.prems(2) by (auto simp: copy_a_def split: sum.splits dest: slice_length)
        moreover from copy_a_bytes [OF c, of fctx] Cons.prems(2,3)
        have "\<forall>k < length (read_patched s1). from_a reada s1 k \<or> from_b fctx s1 k" by simp
        ultimately show ?thesis by simp
      next
        case False
        with s1 Cons.prems(2,3) show ?thesis by auto
      qed
      have "int (length (read_patched s2)) = rlen s2"
        using s2 i1 by (auto simp: copy_b_def length_revcomp split: sum.splits dest: slice_length)
      moreover from copy_b_bytes [OF s2, of reada] i1
      have "\<forall>k < length (read_patched s2). from_a reada s2 k \<or> from_b fctx s2 k" by simp
      ultimately show ?thesis using Cons.IH [OF rest] by simp
    qed
  qed
qed


lemma patch_read_length:
  assumes "patch_read fctx ar (trim_ab, trim_ae) data = Inr s"
  shows "int (length (read_patched s)) = rlen s
    \<and> rlen s = (\<Sum>(ab', ae', off) \<leftarrow> apatches s. ae' - ab') + (\<Sum>(g, off) \<leftarrow> spliced s. be g - bb g)"
proof -
  let ?s0 = "\<lparr> cur_ab = trim_ab, rlen = 0, read_patched = [], apatches = [], spliced = [] \<rparr>"
  from assms obtain s1 where
    loop: "patch_loop fctx (db fctx ar) (trim_ab, trim_ae) data ?s0 = Inr s1"
    and fin: "(if cur_ab s1 < trim_ae then copy_a (db fctx ar) (cur_ab s1) trim_ae s1 else Inr s1) = Inr s"
    by (auto simp: patch_read_def split: sum.splits)
  from patch_loop_length [OF loop]
  have i1: "int (length (read_patched s1)) = rlen s1
    \<and> rlen s1 = (\<Sum>(pb, pe, off) \<leftarrow> apatches s1. pe - pb) + (\<Sum>(g, off) \<leftarrow> spliced s1. be g - bb g)"
    by simp
  show ?thesis
  proof (cases "cur_ab s1 < trim_ae")
    case True
    with fin have "copy_a (db fctx ar) (cur_ab s1) trim_ae s1 = Inr s" by simp
    from copy_a_length [OF this] i1 show ?thesis by simp
  next
    case False
    with fin i1 show ?thesis by simp
  qed
qed

lemma patch_read_bytes:
  assumes "patch_read fctx ar (trim_ab, trim_ae) data = Inr s"
    and "k < length (read_patched s)"
  shows "from_a (db fctx ar) s k \<or> from_b fctx s k"
proof -
  let ?s0 = "\<lparr> cur_ab = trim_ab, rlen = 0, read_patched = [], apatches = [], spliced = [] \<rparr>"
  from assms obtain s1 where
    loop: "patch_loop fctx (db fctx ar) (trim_ab, trim_ae) data ?s0 = Inr s1"
    and fin: "(if cur_ab s1 < trim_ae then copy_a (db fctx ar) (cur_ab s1) trim_ae s1 else Inr s1) = Inr s"
    by (auto simp: patch_read_def split: sum.splits)
  from patch_loop_bytes [OF loop]
  have i1: "int (length (read_patched s1)) = rlen s1
    \<and> (\<forall>k < length (read_patched s1). from_a (db fctx ar) s1 k \<or> from_b fctx s1 k)"
    by simp
  show ?thesis
  proof (cases "cur_ab s1 < trim_ae")
    case True
    with fin have "copy_a (db fctx ar) (cur_ab s1) trim_ae s1 = Inr s" by simp
    from copy_a_bytes [OF this, of fctx] i1 assms(2) show ?thesis by simp
  next
    case False
    with fin i1 assms(2) show ?thesis by simp
  qed
qed

subsection \<open>The entry written for a read\<close>

lemma fix_process_cases:
  assumes "fix_process fctx ovl = Inr (Some e)"
  shows "\<exists>t cands. fix_trim fctx ovl = Inr (Some t)
     \<and> find_candidates fctx ovl (aread (hd ovl)) t = Inr cands
     \<and> (if cands = [] then emit_trimmed fctx (aread (hd ovl)) t = Inr (Some e)
         else emit_fixed fctx (aread (hd ovl)) t (count_span ovl (qsort_gaps cands)) = Inr (Some e))"
proof (cases ovl)
  case Nil
  with assms show ?thesis by (simp add: fix_process_def)
next
  case (Cons ovl0 rest)
  with assms show ?thesis
    by (auto simp: fix_process_def split: sum.splits option.splits if_splits)
qed

lemma emit_trimmed_entry:
  assumes "emit_trimmed fctx ar (trim_ab, trim_ae) = Inr (Some e)"
  shows "prefix e = ''trimmed_'' \<and> slice (db fctx ar) trim_ab trim_ae = Inr (bases e)"
  using assms by (auto simp: emit_trimmed_def split: sum.splits if_splits)

lemma emit_fixed_entry:
  assumes "emit_fixed fctx ar t data = Inr (Some e)"
  shows "prefix e = ''fixed_'' \<and> (\<exists>s. patch_read fctx ar t data = Inr s \<and> bases e = read_patched s
     \<and> minlen fctx \<le> rlen s)"
  using assms by (auto simp: emit_fixed_def split: sum.splits if_splits)

text \<open>
  Claim C4 (length consistency). When a read is written on the \<open>fixed_\<close> branch, its bases
  are the patched read of the patching run on the candidates found, and their number is
  the sum of \<open>ae - ab\<close> over the triples of the splice map plus the sum of \<open>be - bb\<close> over
  the candidates whose B bytes were spliced in.
\<close>

theorem fixed_output_length:
  assumes "fix_process fctx ovl = Inr (Some e)" and "prefix e = ''fixed_''"
  shows "\<exists>t cands s. fix_trim fctx ovl = Inr (Some t)
     \<and> find_candidates fctx ovl (aread (hd ovl)) t = Inr cands
     \<and> patch_read fctx (aread (hd ovl)) t (count_span ovl (qsort_gaps cands)) = Inr s
     \<and> bases e = read_patched s
     \<and> int (length (bases e)) =
         (\<Sum>(ab', ae', off) \<leftarrow> apatches s. ae' - ab') + (\<Sum>(g, off) \<leftarrow> spliced s. be g - bb g)"
proof -
  from fix_process_cases [OF assms(1)] obtain t cands where
    ft: "fix_trim fctx ovl = Inr (Some t)"
    and fc: "find_candidates fctx ovl (aread (hd ovl)) t = Inr cands"
    and em: "if cands = [] then emit_trimmed fctx (aread (hd ovl)) t = Inr (Some e)
         else emit_fixed fctx (aread (hd ovl)) t (count_span ovl (qsort_gaps cands)) = Inr (Some e)"
    by blast
  obtain trim_ab trim_ae where t: "t = (trim_ab, trim_ae)" by (cases t)
  have "cands \<noteq> []"
  proof
    assume "cands = []"
    with em t have "emit_trimmed fctx (aread (hd ovl)) (trim_ab, trim_ae) = Inr (Some e)" by simp
    from emit_trimmed_entry [OF this] assms(2) show False by simp
  qed
  with em have "emit_fixed fctx (aread (hd ovl)) t (count_span ovl (qsort_gaps cands)) = Inr (Some e)"
    by simp
  from emit_fixed_entry [OF this] obtain s where
    pr: "patch_read fctx (aread (hd ovl)) t (count_span ovl (qsort_gaps cands)) = Inr s"
    and b: "bases e = read_patched s" by blast
  from patch_read_length [OF pr [unfolded t]] b
  have "int (length (bases e)) =
         (\<Sum>(ab', ae', off) \<leftarrow> apatches s. ae' - ab') + (\<Sum>(g, off) \<leftarrow> spliced s. be g - bb g)"
    by simp
  with ft fc pr b show ?thesis by blast
qed

theorem fixed_output_length_witness:
  "\<exists>t cands s. fix_trim (S2_ctx 500 []) [S2c_ovl] = Inr (Some t)
     \<and> find_candidates (S2_ctx 500 []) [S2c_ovl] (aread (hd [S2c_ovl])) t = Inr cands
     \<and> patch_read (S2_ctx 500 []) (aread (hd [S2c_ovl])) t (count_span [S2c_ovl] (qsort_gaps cands)) = Inr s
     \<and> bases S2c_fixed = read_patched s
     \<and> int (length (bases S2c_fixed)) =
         (\<Sum>(ab', ae', off) \<leftarrow> apatches s. ae' - ab') + (\<Sum>(g, off) \<leftarrow> spliced s. be g - bb g)"
proof -
  have run: "fix_process (S2_ctx 500 []) [S2c_ovl] = Inr (Some S2c_fixed)" by code_simp
  have "prefix S2c_fixed = ''fixed_''" by (simp add: S2c_fixed_def)
  from fixed_output_length [OF run this] show ?thesis .
qed

text \<open>
  Claim C1 (base conservation). Every byte of the bases written for a read is either the
  byte of the A read at the position the enclosing splice-map triple \<open>(ab, ae, off)\<close>
  gives (for a read that is only trimmed, the position \<open>trim_ab + k\<close> of the identity
  splice), or the byte of the donor read of a spliced candidate at the corresponding
  position of \<open>[bb, be)\<close>, complemented and counted from the end of the interval when the
  candidate's \<open>comp\<close> is set.
\<close>

theorem output_bytes_origin:
  assumes "fix_process fctx ovl = Inr (Some e)" and "k < length (bases e)"
  shows "(prefix e = ''trimmed_''
          \<and> (\<exists>trim_ab trim_ae. fix_trim fctx ovl = Inr (Some (trim_ab, trim_ae))
                \<and> 0 \<le> trim_ab \<and> trim_ab + int k < trim_ae
                \<and> trim_ae \<le> int (length (db fctx (aread (hd ovl))))
                \<and> bases e ! k = db fctx (aread (hd ovl)) ! nat (trim_ab + int k)))
       \<or> (prefix e = ''fixed_''
          \<and> (\<exists>t cands s. fix_trim fctx ovl = Inr (Some t)
                \<and> find_candidates fctx ovl (aread (hd ovl)) t = Inr cands
                \<and> patch_read fctx (aread (hd ovl)) t (count_span ovl (qsort_gaps cands)) = Inr s
                \<and> bases e = read_patched s
                \<and> (from_a (db fctx (aread (hd ovl))) s k \<or> from_b fctx s k)))"
proof -
  from fix_process_cases [OF assms(1)] obtain t cands where
    ft: "fix_trim fctx ovl = Inr (Some t)"
    and fc: "find_candidates fctx ovl (aread (hd ovl)) t = Inr cands"
    and em: "if cands = [] then emit_trimmed fctx (aread (hd ovl)) t = Inr (Some e)
         else emit_fixed fctx (aread (hd ovl)) t (count_span ovl (qsort_gaps cands)) = Inr (Some e)"
    by blast
  obtain trim_ab trim_ae where t: "t = (trim_ab, trim_ae)" by (cases t)
  show ?thesis
  proof (cases "cands = []")
    case True
    with em t have "emit_trimmed fctx (aread (hd ovl)) (trim_ab, trim_ae) = Inr (Some e)" by simp
    from emit_trimmed_entry [OF this] have p: "prefix e = ''trimmed_''"
      and sl: "slice (db fctx (aread (hd ovl))) trim_ab trim_ae = Inr (bases e)" by simp_all
    from slice_nth [OF sl assms(2)] slice_length [OF sl] slice_range [OF sl] assms(2)
    have "0 \<le> trim_ab \<and> trim_ab + int k < trim_ae
        \<and> trim_ae \<le> int (length (db fctx (aread (hd ovl))))
        \<and> bases e ! k = db fctx (aread (hd ovl)) ! nat (trim_ab + int k)" by simp
    with p ft t show ?thesis by blast
  next
    case False
    with em have "emit_fixed fctx (aread (hd ovl)) t (count_span ovl (qsort_gaps cands)) = Inr (Some e)"
      by simp
    from emit_fixed_entry [OF this] obtain s where p: "prefix e = ''fixed_''"
      and pr: "patch_read fctx (aread (hd ovl)) t (count_span ovl (qsort_gaps cands)) = Inr s"
      and b: "bases e = read_patched s" by blast
    from assms(2) b have "k < length (read_patched s)" by simp
    from patch_read_bytes [OF pr [unfolded t] this]
    have "from_a (db fctx (aread (hd ovl))) s k \<or> from_b fctx s k" by simp
    with p ft fc pr b show ?thesis by blast
  qed
qed

theorem output_bytes_origin_witness:
  "(prefix S2c_fixed = ''trimmed_''
          \<and> (\<exists>trim_ab trim_ae. fix_trim (S2_ctx 500 []) [S2c_ovl] = Inr (Some (trim_ab, trim_ae))
                \<and> 0 \<le> trim_ab \<and> trim_ab + int 150 < trim_ae
                \<and> trim_ae \<le> int (length (db (S2_ctx 500 []) (aread (hd [S2c_ovl]))))
                \<and> bases S2c_fixed ! 150 = db (S2_ctx 500 []) (aread (hd [S2c_ovl])) ! nat (trim_ab + int 150)))
       \<or> (prefix S2c_fixed = ''fixed_''
          \<and> (\<exists>t cands s. fix_trim (S2_ctx 500 []) [S2c_ovl] = Inr (Some t)
                \<and> find_candidates (S2_ctx 500 []) [S2c_ovl] (aread (hd [S2c_ovl])) t = Inr cands
                \<and> patch_read (S2_ctx 500 []) (aread (hd [S2c_ovl])) t
                     (count_span [S2c_ovl] (qsort_gaps cands)) = Inr s
                \<and> bases S2c_fixed = read_patched s
                \<and> (from_a (db (S2_ctx 500 []) (aread (hd [S2c_ovl]))) s 150 \<or> from_b (S2_ctx 500 []) s 150)))"
proof -
  have run: "fix_process (S2_ctx 500 []) [S2c_ovl] = Inr (Some S2c_fixed)" by code_simp
  have "150 < length (bases S2c_fixed)" by (simp add: S2c_fixed_def)
  from output_bytes_origin [OF run this] show ?thesis .
qed

section \<open>The splice map\<close>










section \<open>The candidates from gaps through the merging\<close>

lemma merged_from_refl: "merged_from g g"
  by (simp add: merged_from_def)

lemma merged_from_trans: "merged_from g g' \<Longrightarrow> merged_from g' g'' \<Longrightarrow> support g = -1 \<or> 1 \<le> support g \<Longrightarrow> merged_from g g''"
  by (auto simp: merged_from_def)

lemma merged_list_refl: "merged_list D D"
  by (simp add: merged_list_def merged_from_refl)

lemma merged_list_trans:
  "merged_list D D' \<Longrightarrow> merged_list D' D'' \<Longrightarrow> supports_ok D \<Longrightarrow> merged_list D D''"
  unfolding merged_list_def supports_ok_def
  by (metis merged_from_trans nth_mem)

lemma merged_list_supports_ok:
  "merged_list D D' \<Longrightarrow> supports_ok D \<Longrightarrow> supports_ok D'"
  unfolding merged_list_def supports_ok_def merged_from_def
  by (metis in_set_conv_nth)

lemma merged_from_drop: "merged_from g (g\<lparr> support := -1 \<rparr>)"
  by (simp add: merged_from_def)

lemma merged_from_raise: "1 \<le> support g \<Longrightarrow> 1 \<le> n \<Longrightarrow> merged_from g (g\<lparr> support := n \<rparr>)"
  by (simp add: merged_from_def)

lemma merged_list_update:
  "merged_from (D ! i) x \<Longrightarrow> merged_list D (D[i := x])"
  unfolding merged_list_def
proof (intro conjI allI impI)
  show "length (D[i := x]) = length D" by simp
next
  fix k
  assume "merged_from (D ! i) x" and "k < length D"
  then show "merged_from (D ! k) (D[i := x] ! k)"
    by (cases "k = i") (simp_all add: merged_from_refl)
qed

lemma merge_same_inner_merged:
  "supports_ok D \<Longrightarrow> i < j \<Longrightarrow> i < length D \<Longrightarrow> 1 \<le> support (D ! i) \<Longrightarrow>
   merged_list D (merge_same_inner D i j)
   \<and> 1 \<le> support (merge_same_inner D i j ! i)
   \<and> (\<forall>k < j. k \<noteq> i \<longrightarrow> merge_same_inner D i j ! k = D ! k)"
proof (induction D i j rule: merge_same_inner.induct)
  case (1 data i j)
  show ?case
  proof (cases "j < length data \<and> ab (data ! i) = ab (data ! j) \<and> ae (data ! i) = ae (data ! j)")
    case False
    have "merge_same_inner data i j = data"
      by (subst merge_same_inner.simps) (rule if_not_P [OF False])
    then show ?thesis using "1.prems" by (simp add: merged_list_refl)
  next
    case True
    note loop = this
    show ?thesis
    proof (cases "support (data ! j) = -1")
      case True
      have eq: "merge_same_inner data i j = merge_same_inner data i (j + 1)"
        by (subst merge_same_inner.simps) (simp only: if_P [OF loop] if_P [OF True])
      from "1.IH"(1) [OF loop True "1.prems"(1)] "1.prems" show ?thesis
        unfolding eq by simp
    next
      case False
      note alive = this
      show ?thesis
      proof (cases "\<bar>(be (data ! j) - bb (data ! j)) - (be (data ! i) - bb (data ! i))\<bar> < 40")
        case False
        have eq: "merge_same_inner data i j = merge_same_inner data i (j + 1)"
          by (subst merge_same_inner.simps)
             (simp only: if_P [OF loop] if_not_P [OF alive] if_not_P [OF False])
        from "1.IH"(3) [OF loop alive False "1.prems"(1)] "1.prems" show ?thesis
          unfolding eq by simp
      next
        case True
        let ?D1 = "data[i := (data ! i)\<lparr> support := support (data ! i) + 1 \<rparr>]"
        let ?D2 = "?D1[j := (data ! j)\<lparr> support := -1 \<rparr>]"
        have m1: "merged_list data ?D1"
          by (rule merged_list_update) (use "1.prems"(4) in \<open>simp add: merged_from_def\<close>)
        have "?D1 ! j = data ! j" using "1.prems"(2) by simp
        then have m2: "merged_list ?D1 ?D2"
          by (intro merged_list_update) (simp add: merged_from_def)
        have ok1: "supports_ok ?D1" by (rule merged_list_supports_ok [OF m1 "1.prems"(1)])
        have ok2: "supports_ok ?D2" by (rule merged_list_supports_ok [OF m2 ok1])
        have m12: "merged_list data ?D2" by (rule merged_list_trans [OF m1 m2 "1.prems"(1)])
        have i2: "?D2 ! i = (data ! i)\<lparr> support := support (data ! i) + 1 \<rparr>"
          using "1.prems"(2,3) by simp
        have pre: "i < j + 1" "i < length ?D2" "1 \<le> support (?D2 ! i)"
          using "1.prems" i2 by simp_all
        from "1.IH"(2) [OF loop alive True ok2 pre]
        have ih: "merged_list ?D2 (merge_same_inner ?D2 i (j + 1))
          \<and> 1 \<le> support (merge_same_inner ?D2 i (j + 1) ! i)
          \<and> (\<forall>k < j + 1. k \<noteq> i \<longrightarrow> merge_same_inner ?D2 i (j + 1) ! k = ?D2 ! k)" .
        have eq: "merge_same_inner data i j = merge_same_inner ?D2 i (j + 1)"
          by (subst merge_same_inner.simps)
             (simp only: if_P [OF loop] if_not_P [OF alive] if_P [OF True])
        have "\<forall>k < j. k \<noteq> i \<longrightarrow> ?D2 ! k = data ! k" by simp
        with ih merged_list_trans [OF m12 _ "1.prems"(1)] show ?thesis
          unfolding eq by auto
      qed
    qed
  qed
qed


lemma merged_from_fields:
  assumes "merged_from g g'"
  shows "ab g' = ab g \<and> ae g' = ae g \<and> bb g' = bb g \<and> be g' = be g \<and> b g' = b g \<and> comp g' = comp g"
proof -
  from assms have eq: "g'\<lparr> support := 0 \<rparr> = g\<lparr> support := 0 \<rparr>" by (simp add: merged_from_def)
  from arg_cong [OF eq, of ab] arg_cong [OF eq, of ae] arg_cong [OF eq, of bb]
    arg_cong [OF eq, of be] arg_cong [OF eq, of b] arg_cong [OF eq, of comp]
  show ?thesis by simp
qed

lemma merged_from_bound: "merged_from g g' \<Longrightarrow> gap_bound mg g' = gap_bound mg g"
  using merged_from_fields [of g g'] by (simp add: gap_bound_def)

lemma supports_ok_nth: "supports_ok D \<Longrightarrow> i < length D \<Longrightarrow> support (D ! i) \<noteq> -1 \<Longrightarrow> 1 \<le> support (D ! i)"
  unfolding supports_ok_def using nth_mem by blast

lemma merge_same_step_merged:
  assumes "supports_ok D" and "i < length D"
  shows "merged_list D (merge_same_step mg D i)
    \<and> (mg \<noteq> -1 \<longrightarrow> support (merge_same_step mg D i ! i) \<noteq> -1 \<longrightarrow> gap_bound mg (merge_same_step mg D i ! i))"
proof (cases "support (D ! i) = -1")
  case True
  then show ?thesis by (simp add: merge_same_step_def merged_list_refl)
next
  case False
  note alive = this
  show ?thesis
  proof (cases "mg \<noteq> -1 \<and> (ae (D ! i) - ab (D ! i) \<ge> mg \<or> \<bar>be (D ! i) - bb (D ! i)\<bar> \<ge> mg)")
    case True
    have "merge_same_step mg D i = D[i := (D ! i)\<lparr> support := -1 \<rparr>]"
      by (simp only: merge_same_step_def if_not_P [OF alive] if_P [OF True])
    then show ?thesis using assms(2) merged_list_update [OF merged_from_drop, of D i] by simp
  next
    case False
    have eq: "merge_same_step mg D i = merge_same_inner D i (i + 1)"
      by (simp only: merge_same_step_def if_not_P [OF alive] if_not_P [OF False])
    from supports_ok_nth [OF assms alive] have "1 \<le> support (D ! i)" .
    from merge_same_inner_merged [OF assms(1) _ assms(2) this, of "i + 1"]
    have m: "merged_list D (merge_same_inner D i (i + 1))" by simp
    then have "merged_from (D ! i) (merge_same_inner D i (i + 1) ! i)"
      using assms(2) by (simp add: merged_list_def)
    from merged_from_bound [OF this, of mg] False m show ?thesis
      unfolding eq by (auto simp: gap_bound_def)
  qed
qed

lemma merged_list_nth:
  "merged_list D D' \<Longrightarrow> k < length D \<Longrightarrow> merged_from (D ! k) (D' ! k)"
  by (simp add: merged_list_def)

lemma merged_list_length: "merged_list D D' \<Longrightarrow> length D' = length D"
  by (simp add: merged_list_def)

lemma merge_same_fold:
  assumes "supports_ok D" and "\<forall>i \<in> set is. i < length D"
  shows "merged_list D (foldl (merge_same_step mg) D is)
    \<and> (mg \<noteq> -1 \<longrightarrow> (\<forall>i \<in> set is. support (foldl (merge_same_step mg) D is ! i) \<noteq> -1
          \<longrightarrow> gap_bound mg (foldl (merge_same_step mg) D is ! i)))"
  using assms
proof (induction "is" arbitrary: D)
  case Nil
  then show ?case by (simp add: merged_list_refl)
next
  case (Cons i "is")
  let ?D1 = "merge_same_step mg D i"
  let ?D' = "foldl (merge_same_step mg) ?D1 is"
  from Cons.prems have i: "i < length D" by simp
  note st = merge_same_step_merged [OF Cons.prems(1) i, of mg]
  from st have m1: "merged_list D ?D1" by simp
  have ok1: "supports_ok ?D1" by (rule merged_list_supports_ok [OF m1 Cons.prems(1)])
  have len1: "length ?D1 = length D" by (rule merged_list_length [OF m1])
  from Cons.prems(2) len1 have "\<forall>i \<in> set is. i < length ?D1" by simp
  from Cons.IH [OF ok1 this]
  have ih: "merged_list ?D1 ?D'"
    "mg \<noteq> -1 \<longrightarrow> (\<forall>i \<in> set is. support (?D' ! i) \<noteq> -1 \<longrightarrow> gap_bound mg (?D' ! i))"
    by simp_all
  have m: "merged_list D ?D'" by (rule merged_list_trans [OF m1 ih(1) Cons.prems(1)])
  have "mg \<noteq> -1 \<longrightarrow> support (?D' ! i) \<noteq> -1 \<longrightarrow> gap_bound mg (?D' ! i)"
  proof (intro impI)
    assume mg: "mg \<noteq> -1" and alive: "support (?D' ! i) \<noteq> -1"
    from merged_list_nth [OF ih(1)] i len1 have mf: "merged_from (?D1 ! i) (?D' ! i)" by simp
    with alive have "support (?D1 ! i) \<noteq> -1" by (auto simp: merged_from_def)
    with st mg have "gap_bound mg (?D1 ! i)" by simp
    with merged_from_bound [OF mf] show "gap_bound mg (?D' ! i)" by simp
  qed
  with m ih(2) show ?case by simp
qed

lemma merge_same_merged:
  assumes "supports_ok D"
  shows "merged_list D (merge_same mg D)
    \<and> (mg \<noteq> -1 \<longrightarrow> (\<forall>k < length D. support (merge_same mg D ! k) \<noteq> -1 \<longrightarrow> gap_bound mg (merge_same mg D ! k)))"
  using merge_same_fold [OF assms, of "[0..<length D]" mg] by (simp add: merge_same_def)

lemma merge_overlapping_inner_merged:
  "supports_ok D \<Longrightarrow> i < j \<Longrightarrow> i < length D \<Longrightarrow> 1 \<le> support (D ! i) \<Longrightarrow>
   merged_list D (merge_overlapping_inner D i j)"
proof (induction D i j rule: merge_overlapping_inner.induct)
  case (1 data i j)
  show ?case
  proof (cases "j < length data \<and> ae (data ! i) > ab (data ! j) \<and> ab (data ! i) < ae (data ! j)")
    case False
    have "merge_overlapping_inner data i j = data"
      by (subst merge_overlapping_inner.simps) (rule if_not_P [OF False])
    then show ?thesis by (simp add: merged_list_refl)
  next
    case True
    note loop = this
    show ?thesis
    proof (cases "support (data ! j) = -1")
      case True
      have eq: "merge_overlapping_inner data i j = merge_overlapping_inner data i (j + 1)"
        by (subst merge_overlapping_inner.simps) (simp only: if_P [OF loop] if_P [OF True])
      from "1.IH"(1) [OF loop True "1.prems"(1)] "1.prems" show ?thesis
        unfolding eq by simp
    next
      case False
      note alive = this
      from loop have j: "j < length data" by simp
      from supports_ok_nth [OF "1.prems"(1) j alive] have sj: "1 \<le> support (data ! j)" .
      show ?thesis
      proof (cases "support (data ! i) > support (data ! j)")
        case True
        let ?D1 = "data[i := (data ! i)\<lparr> support := support (data ! i) + support (data ! j) \<rparr>]"
        let ?D2 = "?D1[j := (data ! j)\<lparr> support := -1 \<rparr>]"
        have m1: "merged_list data ?D1"
          by (rule merged_list_update) (use "1.prems"(4) sj in \<open>simp add: merged_from_def\<close>)
        have "?D1 ! j = data ! j" using "1.prems"(2) by simp
        then have m2: "merged_list ?D1 ?D2"
          by (intro merged_list_update) (simp add: merged_from_def)
        have ok1: "supports_ok ?D1" by (rule merged_list_supports_ok [OF m1 "1.prems"(1)])
        have ok2: "supports_ok ?D2" by (rule merged_list_supports_ok [OF m2 ok1])
        have m12: "merged_list data ?D2" by (rule merged_list_trans [OF m1 m2 "1.prems"(1)])
        have pre: "i < j + 1" "i < length ?D2" "1 \<le> support (?D2 ! i)"
          using "1.prems" sj by simp_all
        have eq: "merge_overlapping_inner data i j = merge_overlapping_inner ?D2 i (j + 1)"
          by (subst merge_overlapping_inner.simps)
             (simp only: if_P [OF loop] if_not_P [OF alive] if_P [OF True])
        from "1.IH"(2) [OF loop alive True ok2 pre] merged_list_trans [OF m12 _ "1.prems"(1)]
        show ?thesis unfolding eq by simp
      next
        case False
        let ?D1 = "data[j := (data ! j)\<lparr> support := support (data ! j) + support (data ! i) \<rparr>]"
        let ?D2 = "?D1[i := (data ! i)\<lparr> support := -1 \<rparr>]"
        have eq: "merge_overlapping_inner data i j = ?D2"
          by (subst merge_overlapping_inner.simps)
             (simp only: if_P [OF loop] if_not_P [OF alive] if_not_P [OF False])
        have m1: "merged_list data ?D1"
          by (rule merged_list_update) (use "1.prems"(4) sj in \<open>simp add: merged_from_def\<close>)
        have "?D1 ! i = data ! i" using "1.prems"(2) by simp
        then have m2: "merged_list ?D1 ?D2"
          by (intro merged_list_update) (simp add: merged_from_def)
        from merged_list_trans [OF m1 m2 "1.prems"(1)] show ?thesis unfolding eq .
      qed
    qed
  qed
qed

lemma merge_overlapping_step_merged:
  assumes "supports_ok D" and "i < length D"
  shows "merged_list D (merge_overlapping_step D i)"
proof (cases "support (D ! i) = -1")
  case True
  then show ?thesis by (simp add: merge_overlapping_step_def merged_list_refl)
next
  case False
  from supports_ok_nth [OF assms False] have "1 \<le> support (D ! i)" .
  from merge_overlapping_inner_merged [OF assms(1) _ assms(2) this, of "i + 1"] False
  show ?thesis by (simp add: merge_overlapping_step_def)
qed

lemma merge_overlapping_fold:
  assumes "supports_ok D" and "\<forall>i \<in> set is. i < length D"
  shows "merged_list D (foldl merge_overlapping_step D is)"
  using assms
proof (induction "is" arbitrary: D)
  case Nil
  then show ?case by (simp add: merged_list_refl)
next
  case (Cons i "is")
  let ?D1 = "merge_overlapping_step D i"
  from Cons.prems have i: "i < length D" by simp
  have m1: "merged_list D ?D1" by (rule merge_overlapping_step_merged [OF Cons.prems(1) i])
  have ok1: "supports_ok ?D1" by (rule merged_list_supports_ok [OF m1 Cons.prems(1)])
  from Cons.prems(2) merged_list_length [OF m1] have "\<forall>i \<in> set is. i < length ?D1" by simp
  from merged_list_trans [OF m1 Cons.IH [OF ok1 this] Cons.prems(1)] show ?case by simp
qed

lemma merge_overlapping_merged: "supports_ok D \<Longrightarrow> merged_list D (merge_overlapping D)"
  using merge_overlapping_fold [of D "[0..<length D]"] by (simp add: merge_overlapping_def)

lemma drop_spanned_merged: "merged_list D (drop_spanned ovl D)"
  by (simp add: merged_list_def drop_spanned_def merged_from_refl merged_from_drop)

lemma keep_supported_subset:
  "keep_supported fctx qa D = Inr out \<Longrightarrow> g \<in> set out \<Longrightarrow> g \<in> set D \<and> 5 \<le> support g"
proof (induction D arbitrary: out)
  case Nil
  then show ?case by simp
next
  case (Cons h D)
  show ?case
  proof (cases "support h < 5")
    case True
    with Cons show ?thesis by simp
  next
    case False
    with Cons.prems(1) obtain bad out' where
      "keep_supported fctx qa D = Inr out'" and "out = (if bad then h # out' else out')"
      by (auto split: sum.splits)
    with Cons.IH [of out'] Cons.prems(2) False show ?thesis by (auto split: if_splits)
  qed
qed

lemma set_insert_gap: "set (insert_gap g hs) = insert g (set hs)"
  by (induction hs) auto

lemma set_qsort_gaps: "set (qsort_gaps gs) = set gs"
  by (induction gs) (simp_all add: qsort_gaps_def set_insert_gap)


lemma cdiv_pos: "0 < y \<Longrightarrow> cdiv x y = (if 0 \<le> x then x div y else - ((- x) div y))"
  by (auto simp: cdiv_def sgn_if abs_if)

lemma cdiv_mono: "0 < t \<Longrightarrow> x \<le> y \<Longrightarrow> cdiv x t \<le> cdiv y t"
proof -
  assume t: "0 < t" and xy: "x \<le> y"
  show ?thesis
  proof (cases "0 \<le> x")
    case True
    with xy t show ?thesis by (simp add: cdiv_pos zdiv_mono1)
  next
    case False
    note xneg = this
    show ?thesis
    proof (cases "0 \<le> y")
      case True
      have "0 \<le> (- x) div t" using xneg t by (simp add: pos_imp_zdiv_nonneg_iff)
      moreover have "0 \<le> y div t" using True t by (simp add: pos_imp_zdiv_nonneg_iff)
      ultimately show ?thesis using xneg True t by (simp add: cdiv_pos)
    next
      case False
      with xy have "- y \<le> - x" by simp
      from zdiv_mono1 [OF this t] xneg False t show ?thesis by (simp add: cdiv_pos)
    qed
  qed
qed

lemma gap_candidate_props:
  assumes "gap_candidate fctx o1 o2 = Inr (Some g)"
  shows "support g = 1 \<and> bb g < be g \<and> \<not> dust_inside (dusttrack fctx (b g)) (bb g) (be g)
    \<and> (0 < twidth fctx \<longrightarrow> aepos o1 < abpos o2 \<longrightarrow> ab g < ae g)"
proof -
  from assms obtain wl wr where wl: "rd (trace o1) (int (length (trace o1)) - 1) = Inr wl"
    and wr: "rd (trace o2) 1 = Inr wr"
    by (auto simp: gap_candidate_def Let_def split: sum.splits)
  define blen where "blen = DB_READ_LEN fctx (bread o2)"
  define bb' where "bb' = (if flags o2 AND OVL_COMP \<noteq> 0 then blen - (bbpos o2 + wr) else bepos o1 - wl)"
  define be' where "be' = (if flags o2 AND OVL_COMP \<noteq> 0 then blen - (bepos o1 - wl) else bbpos o2 + wr)"
  from assms wl wr have lt: "bepos o1 - wl < bbpos o2 + wr"
    by (auto simp: gap_candidate_def Let_def split: if_splits)
  from assms wl wr lt have nd: "\<not> dust_inside (dusttrack fctx (bread o2)) bb' be'"
    by (auto simp: gap_candidate_def Let_def bb'_def be'_def blen_def split: if_splits)
  from assms wl wr lt nd obtain q where
    g: "g = \<lparr> ab = cdiv (aepos o1 - 1) (twidth fctx) * twidth fctx,
              ae = (cdiv (abpos o2) (twidth fctx) + 1) * twidth fctx,
              bb = bb', be = be', diff = cdiv (100 * q) (be' - bb'),
              b = bread o2, support = 1, span = 0, comp = flags o2 AND OVL_COMP \<rparr>"
    by (auto simp: gap_candidate_def Let_def bb'_def be'_def blen_def split: if_splits sum.splits)
  have "bb' < be'" using lt by (simp add: bb'_def be'_def)
  moreover have "0 < twidth fctx \<longrightarrow> aepos o1 < abpos o2 \<longrightarrow> ab g < ae g"
  proof (intro impI)
    assume t: "0 < twidth fctx" and "aepos o1 < abpos o2"
    then have "aepos o1 - 1 \<le> abpos o2" by simp
    from cdiv_mono [OF t this]
    have "cdiv (aepos o1 - 1) (twidth fctx) * twidth fctx \<le> cdiv (abpos o2) (twidth fctx) * twidth fctx"
      using t by simp
    also have "\<dots> < (cdiv (abpos o2) (twidth fctx) + 1) * twidth fctx"
      using t by (simp add: algebra_simps)
    finally show "ab g < ae g" by (simp add: g)
  qed
  ultimately show ?thesis using nd by (simp add: g)
qed

lemma find_gaps_props:
  "find_gaps fctx ovl = Inr raw \<Longrightarrow> g \<in> set raw \<Longrightarrow>
   support g = 1 \<and> bb g < be g \<and> \<not> dust_inside (dusttrack fctx (b g)) (bb g) (be g)
    \<and> (0 < twidth fctx \<longrightarrow> ab g < ae g)"
proof (induction fctx ovl arbitrary: raw rule: find_gaps.induct)
  case (1 fctx o1 o2 rest)
  let ?test = "bread o1 = bread o2 \<and> aepos o1 < abpos o2
               \<and> flags o1 AND OVL_COMP = flags o2 AND OVL_COMP"
  from "1.prems"(1) obtain c gs where
    c: "(if ?test then gap_candidate fctx o1 o2 else Inr None) = Inr c"
    and gs: "find_gaps fctx (o2 # rest) = Inr gs"
    and raw: "raw = (case c of None \<Rightarrow> gs | Some g \<Rightarrow> g # gs)"
    by (auto split: sum.splits)
  show ?case
  proof (cases "g \<in> set gs")
    case True
    from "1.IH" [OF c gs True] show ?thesis .
  next
    case False
    with raw "1.prems"(2) have cg: "c = Some g" by (cases c) auto
    with c have t: "?test" and gc: "gap_candidate fctx o1 o2 = Inr (Some g)"
      by (auto split: if_splits)
    from gap_candidate_props [OF gc] t show ?thesis by simp
  qed
qed simp_all

lemma supports_ok_raw:
  assumes "find_gaps fctx ovl = Inr raw"
  shows "supports_ok (qsort_gaps raw)"
  unfolding supports_ok_def
  using find_gaps_props [OF assms] by (simp add: set_qsort_gaps)

lemma merge_gaps_origin:
  assumes fg: "find_gaps fctx ovl = Inr raw"
    and mg: "merge_gaps fctx ovl qa raw = Inr data"
    and g: "g \<in> set data"
  shows "\<exists>g0 \<in> set raw. merged_from g0 g
    \<and> (maxgap fctx \<noteq> -1 \<longrightarrow> gap_bound (maxgap fctx) g)"
proof -
  let ?D0 = "qsort_gaps raw"
  let ?D1 = "merge_same (maxgap fctx) ?D0"
  let ?D2 = "merge_overlapping ?D1"
  let ?D3 = "drop_spanned ovl ?D2"
  from mg have ks: "keep_supported fctx qa ?D3 = Inr data" by (simp add: merge_gaps_def)
  from keep_supported_subset [OF ks g] have g3: "g \<in> set ?D3" and sup: "5 \<le> support g" by simp_all
  have ok0: "supports_ok ?D0" by (rule supports_ok_raw [OF fg])
  note s1 = merge_same_merged [OF ok0, of "maxgap fctx"]
  from s1 have m01: "merged_list ?D0 ?D1" by simp
  have ok1: "supports_ok ?D1" by (rule merged_list_supports_ok [OF m01 ok0])
  have m12: "merged_list ?D1 ?D2" by (rule merge_overlapping_merged [OF ok1])
  have ok2: "supports_ok ?D2" by (rule merged_list_supports_ok [OF m12 ok1])
  have m23: "merged_list ?D2 ?D3" by (rule drop_spanned_merged)
  have m13: "merged_list ?D1 ?D3" by (rule merged_list_trans [OF m12 m23 ok1])
  have m03: "merged_list ?D0 ?D3" by (rule merged_list_trans [OF m01 m13 ok0])
  from g3 obtain k where k: "k < length ?D3" and gk: "?D3 ! k = g"
    by (auto simp: in_set_conv_nth)
  from k merged_list_length [OF m03] have k0: "k < length ?D0" by simp
  from k merged_list_length [OF m13] have k1: "k < length ?D1" by simp
  from merged_list_nth [OF m03 k0] gk have mf0: "merged_from (?D0 ! k) g" by simp
  from merged_list_nth [OF m13 k1] gk have mf1: "merged_from (?D1 ! k) g" by simp
  have "?D0 ! k \<in> set raw" using k0 nth_mem [OF k0] by (simp add: set_qsort_gaps)
  moreover have "maxgap fctx \<noteq> -1 \<longrightarrow> gap_bound (maxgap fctx) g"
  proof
    assume cfg: "maxgap fctx \<noteq> -1"
    from mf1 sup have "support (?D1 ! k) \<noteq> -1" by (auto simp: merged_from_def)
    with s1 cfg k0 have "gap_bound (maxgap fctx) (?D1 ! k)" by simp
    with merged_from_bound [OF mf1] show "gap_bound (maxgap fctx) g" by simp
  qed
  ultimately show ?thesis using mf0 by blast
qed

lemma weak_segments_appends:
  "weak_segments fctx ovl qa segs data = Inr out \<Longrightarrow> \<exists>ws. out = data @ ws"
proof (induction segs arbitrary: data)
  case Nil
  then show ?case by simp
next
  case (Cons i segs)
  from Cons.prems obtain d' where "weak_segments fctx ovl qa segs d' = Inr out" and "\<exists>w. d' = data @ w"
    by (fastforce simp: Let_def split: sum.splits if_splits)
  with Cons.IH [of d'] show ?case by auto
qed

lemma find_candidates_split:
  assumes "find_candidates fctx ovl ar t = Inr cands"
  shows "\<exists>raw data ws. find_gaps fctx ovl = Inr raw \<and> merge_gaps fctx ovl (qtrack fctx ar) raw = Inr data
     \<and> cands = data @ ws"
proof -
  obtain trim_ab trim_ae where t: "t = (trim_ab, trim_ae)" by (cases t)
  from assms obtain raw data where fg: "find_gaps fctx ovl = Inr raw"
    and mg: "merge_gaps fctx ovl (qtrack fctx ar) raw = Inr data"
    and fw: "find_weak fctx ovl (qtrack fctx ar) t data = Inr cands"
    by (auto simp: find_candidates_def split: sum.splits)
  from fw t obtain segs where "weak_segments fctx ovl (qtrack fctx ar) segs data = Inr cands"
    by (auto simp: find_weak_def split: sum.splits)
  from weak_segments_appends [OF this] fg mg show ?thesis by blast
qed


section \<open>The remapped intervals\<close>











lemma adjust_interval_written:
  "adjust_interval ps rl iv = Inr (Some (ib_adj, ie_adj)) \<Longrightarrow>
   ie_adj - ib_adj > MIN_INT_LEN \<and> 0 \<le> ib_adj \<and> ib_adj \<le> ie_adj \<and> ie_adj \<le> rl"
  by (cases iv) (auto simp: adjust_interval_def split: list.splits prod.splits if_splits)

lemma trimmed_intervals_bounds:
  "trim_ab \<le> trim_ae \<Longrightarrow> \<forall>(ib, ie) \<in> set ivs. ib \<le> ie \<Longrightarrow>
   (beg, en) \<in> set (trimmed_intervals (trim_ab, trim_ae) ivs) \<Longrightarrow>
   0 \<le> beg \<and> beg \<le> en \<and> en \<le> trim_ae - trim_ab"
proof (induction ivs)
  case Nil
  then show ?case by simp
next
  case (Cons iv ivs)
  obtain ib ie where iv: "iv = (ib, ie)" by (cases iv)
  from Cons show ?case by (auto simp: iv Let_def split: if_splits)
qed



lemma S3_stages:
  "find_gaps (S3_ctx []) S3_five = Inr S3_raw"
  "merge_gaps (S3_ctx []) S3_five (qtrack (S3_ctx []) 2) S3_raw = Inr [S3_gap 9 5]"
  "find_weak (S3_ctx []) S3_five (qtrack (S3_ctx []) 2) (0, 500) [S3_gap 9 5] = Inr [S3_gap 9 5]"
  by code_simp+





section \<open>The candidates that reach the patching\<close>

text \<open>
  Claim C6 (dust veto), as the code has it. A candidate that the gap finder produced and
  that survives the merging reaches the patching, and its forward-strand B interval
  \<open>[bb, be)\<close> contains no dust interval of its donor read. (The candidates from weak
  segments are appended after the merging without a dust test.)
\<close>

theorem gap_candidates_dust_free:
  assumes "find_gaps fctx ovl = Inr raw"
    and "merge_gaps fctx ovl (qtrack fctx ar) raw = Inr data"
    and "find_weak fctx ovl (qtrack fctx ar) t data = Inr cands"
    and "g \<in> set data"
  shows "find_candidates fctx ovl ar t = Inr cands \<and> g \<in> set cands
    \<and> \<not> dust_inside (dusttrack fctx (b g)) (bb g) (be g)"
proof -
  have fc: "find_candidates fctx ovl ar t = Inr cands"
    using assms(1,2,3) by (simp add: find_candidates_def)
  from find_candidates_split [OF fc] assms(1,2) obtain ws where "cands = data @ ws" by auto
  with assms(4) have mem: "g \<in> set cands" by simp
  from merge_gaps_origin [OF assms(1,2,4)] obtain g0 where g0: "g0 \<in> set raw"
    and mf: "merged_from g0 g" by blast
  from find_gaps_props [OF assms(1) g0] merged_from_fields [OF mf]
  have "\<not> dust_inside (dusttrack fctx (b g)) (bb g) (be g)" by simp
  with fc mem show ?thesis by simp
qed

lemma S3_dust_stages:
  "find_gaps S3_dust_ctx S3_five = Inr S3_raw"
  "merge_gaps S3_dust_ctx S3_five (qtrack S3_dust_ctx 2) S3_raw = Inr [S3_gap 9 5]"
  "find_weak S3_dust_ctx S3_five (qtrack S3_dust_ctx 2) (0, 500) [S3_gap 9 5] = Inr [S3_gap 9 5]"
  by code_simp+

lemma S5_dust_vetoes_gap:
  "find_gaps S5_ctx S3_five = Inr []"
  "dust_inside (dusttrack S5_ctx 9) (bb (S3_gap 9 5)) (be (S3_gap 9 5))"
  "fix_process S5_ctx S3_five = Inr (Some (S3_trimmed []))"
  by code_simp+

theorem gap_candidates_dust_free_witness:
  "dusttrack S3_dust_ctx (b (S3_gap 9 5)) = [(50, 150), (350, 450)]
   \<and> bb (S3_gap 9 5) = 100 \<and> be (S3_gap 9 5) = 400
   \<and> find_candidates S3_dust_ctx S3_five 2 (0, 500) = Inr [S3_gap 9 5]
   \<and> S3_gap 9 5 \<in> set [S3_gap 9 5]
   \<and> \<not> dust_inside (dusttrack S3_dust_ctx (b (S3_gap 9 5))) (bb (S3_gap 9 5)) (be (S3_gap 9 5))"
proof -
  have mem: "S3_gap 9 5 \<in> set [S3_gap 9 5]" by simp
  have "dusttrack S3_dust_ctx (b (S3_gap 9 5)) = [(50, 150), (350, 450)]"
    by (simp add: S3_dust_ctx_def)
  moreover have "bb (S3_gap 9 5) = 100 \<and> be (S3_gap 9 5) = 400" by (simp add: S3_gap_def)
  ultimately show ?thesis using gap_candidates_dust_free [OF S3_dust_stages mem] by blast
qed

theorem weak_candidate_dust_counterexample:
  "find_candidates (S2_ctx 500 [(120, 150)]) [S2_ovl] 1 (0, 400) = Inr [S2_gap]
   \<and> dust_inside (dusttrack (S2_ctx 500 [(120, 150)]) (b S2_gap)) (bb S2_gap) (be S2_gap)
   \<and> fix_process (S2_ctx 500 [(120, 150)]) [S2_ovl] = Inr (Some S2_fixed)"
  by code_simp

text \<open>
  Claim C7 (maxgap cap), as the code has it. When \<open>maxgap\<close> is configured (not -1), a
  candidate that the gap finder produced and that survives the merging reaches the
  patching and satisfies \<open>ae - ab < maxgap\<close> and \<open>|be - bb| < maxgap\<close>, the test of line
  616; both lengths being positive, also \<open>|(be - bb) - (ae - ab)| < maxgap\<close>. (The
  candidates from weak segments are appended after the merging and never tested.)
\<close>

theorem gap_candidates_within_maxgap:
  assumes "find_gaps fctx ovl = Inr raw"
    and "merge_gaps fctx ovl (qtrack fctx ar) raw = Inr data"
    and "find_weak fctx ovl (qtrack fctx ar) t data = Inr cands"
    and "g \<in> set data"
    and "maxgap fctx \<noteq> -1"
    and "0 < twidth fctx"
  shows "find_candidates fctx ovl ar t = Inr cands \<and> g \<in> set cands
    \<and> ae g - ab g < maxgap fctx \<and> \<bar>be g - bb g\<bar> < maxgap fctx
    \<and> \<bar>(be g - bb g) - (ae g - ab g)\<bar> < maxgap fctx"
proof -
  have fc: "find_candidates fctx ovl ar t = Inr cands"
    using assms(1,2,3) by (simp add: find_candidates_def)
  from find_candidates_split [OF fc] assms(1,2) obtain ws where "cands = data @ ws" by auto
  with assms(4) have mem: "g \<in> set cands" by simp
  from merge_gaps_origin [OF assms(1,2,4)] assms(5) obtain g0 where g0: "g0 \<in> set raw"
    and mf: "merged_from g0 g" and bound: "gap_bound (maxgap fctx) g" by blast
  from find_gaps_props [OF assms(1) g0] merged_from_fields [OF mf] assms(6)
  have pos: "ab g < ae g" "bb g < be g" by simp_all
  from bound have "ae g - ab g < maxgap fctx" "\<bar>be g - bb g\<bar> < maxgap fctx"
    by (simp_all add: gap_bound_def)
  with pos have "ae g - ab g < maxgap fctx \<and> \<bar>be g - bb g\<bar> < maxgap fctx
    \<and> \<bar>(be g - bb g) - (ae g - ab g)\<bar> < maxgap fctx"
    by linarith
  with fc mem show ?thesis by simp
qed

theorem gap_candidates_within_maxgap_witness:
  "find_candidates (S3_ctx []) S3_five 2 (0, 500) = Inr [S3_gap 9 5]
   \<and> S3_gap 9 5 \<in> set [S3_gap 9 5]
   \<and> ae (S3_gap 9 5) - ab (S3_gap 9 5) < maxgap (S3_ctx [])
   \<and> \<bar>be (S3_gap 9 5) - bb (S3_gap 9 5)\<bar> < maxgap (S3_ctx [])
   \<and> \<bar>(be (S3_gap 9 5) - bb (S3_gap 9 5)) - (ae (S3_gap 9 5) - ab (S3_gap 9 5))\<bar> < maxgap (S3_ctx [])"
proof -
  have mem: "S3_gap 9 5 \<in> set [S3_gap 9 5]" by simp
  have cfg: "maxgap (S3_ctx []) \<noteq> -1" by (simp add: S3_ctx_def)
  have tw: "0 < twidth (S3_ctx [])" by (simp add: S3_ctx_def)
  from gap_candidates_within_maxgap [OF S3_stages mem cfg tw] show ?thesis .
qed

theorem weak_candidate_maxgap_counterexample:
  "maxgap (S2_ctx 50 []) = 50
   \<and> find_candidates (S2_ctx 50 []) [S2_ovl] 1 (0, 400) = Inr [S2_gap]
   \<and> ae S2_gap - ab S2_gap = 100
   \<and> fix_process (S2_ctx 50 []) [S2_ovl] = Inr (Some S2_fixed)"
  by code_simp

section \<open>The scenarios on the whole of fix_process\<close>



text \<open>
  Claim C8 (remapped intervals on the header line): the code at a read that is only
  trimmed. The interval \<open>[10, 13)\<close> of the track \<open>REP\<close>, of length 3, is written on the
  \<open>trimmed_\<close> header, while the \<open>fixed_\<close> branch drops the same interval and keeps
  \<open>[410, 480)\<close>.
\<close>

theorem trimmed_header_short_interval:
  "fix_process (S3_ctx REP) (S3_pair 9) = Inr (Some (S3_trimmed [(''REP'', [(10, 13), (410, 480)])]))
   \<and> fix_process (S3_ctx REP) S3_five = Inr (Some (S3_fixed [(''REP'', [(410, 480)])]))"
  by code_simp

end
